theory Spec2Isabelle
  imports Main "HOL-Library.List_Lexorder"
begin

section \<open>Conventions of the embedding\<close>

text \<open>
  The module \<^verbatim>\<open>tenpy/linalg/charges.pyx\<close> keeps its data in NumPy arrays of
  \<^verbatim>\<open>np.int_\<close>. A one-dimensional array is a list of integers, a two-dimensional
  array the list of its rows. An array carries its column count even when it has no
  row; a list of rows does not, so a function that reads \<^verbatim>\<open>shape[1]\<close> of a bare
  array takes the column count as an argument, and for the \<^verbatim>\<open>charges\<close> of a leg it
  is the \<^verbatim>\<open>qnumber\<close> of the leg's \<^verbatim>\<open>chinfo\<close> (what \<^verbatim>\<open>test_sanity\<close> checks).
  Entries are mathematical integers: the charges, moduli, slices and block counts
  are taken inside the range of a C \<^verbatim>\<open>int\<close>, the type of \<^verbatim>\<open>ind_len\<close>, \<^verbatim>\<open>block_number\<close>
  and \<^verbatim>\<open>qconj\<close> and of the variable through which \<^verbatim>\<open>check_valid\<close> reads an entry,
  and neither truncation nor wrap-around is modelled. The one place where the C
  arithmetic of the compiled module differs from Python's on small numbers, the
  truncating \<^verbatim>\<open>%\<close> under \<^verbatim>\<open>cdivision(True)\<close>, is written out.

  Every \<^verbatim>\<open>raise\<close> and failed \<^verbatim>\<open>assert\<close> is the left summand of a result. Code
  compiled with \<^verbatim>\<open>boundscheck(False)\<close> and \<^verbatim>\<open>cdivision(True)\<close> has no defined
  behaviour past the end of a typed buffer or at a zero divisor; the model returns
  \<open>Undefined\<close> there.
\<close>

datatype error = ValueError | IndexError | AssertionError | AttributeError | Undefined

definition bind_r :: "error + 'a \<Rightarrow> ('a \<Rightarrow> error + 'b) \<Rightarrow> error + 'b" where
  "bind_r m f = (case m of Inl e \<Rightarrow> Inl e | Inr x \<Rightarrow> f x)"

text \<open>A loop whose body may fail, collecting the results: the first failure ends it.\<close>

fun map_r :: "('a \<Rightarrow> error + 'b) \<Rightarrow> 'a list \<Rightarrow> error + 'b list" where
  "map_r f [] = Inr []"
| "map_r f (x # xs) =
     (case f x of
        Inl e \<Rightarrow> Inl e
      | Inr y \<Rightarrow> (case map_r f xs of Inl e \<Rightarrow> Inl e | Inr ys \<Rightarrow> Inr (y # ys)))"

text \<open>Python's \<^verbatim>\<open>xs[i]\<close>: a negative index counts from the end, out of range raises.\<close>

definition py_get :: "'a list \<Rightarrow> int \<Rightarrow> error + 'a" where
  "py_get xs i =
     (let n = int (length xs); j = (if i < 0 then i + n else i)
      in if 0 \<le> j \<and> j < n then Inr (xs ! nat j) else Inl IndexError)"

text \<open>NumPy's \<^verbatim>\<open>a[idx]\<close> for an array \<^verbatim>\<open>idx\<close> of non-negative indices.\<close>

definition take_idx :: "'a list \<Rightarrow> nat list \<Rightarrow> error + 'a list" where
  "take_idx xs idx =
     map_r (\<lambda>i. if i < length xs then Inr (xs ! i) else Inl IndexError) idx"

text \<open>
  Python's \<^verbatim>\<open>xs[b:e]\<close>: negative bounds count from the end, and bounds are clipped
  to the sequence.
\<close>

definition py_bound :: "nat \<Rightarrow> int \<Rightarrow> nat" where
  "py_bound n i = (if i < 0 then nat (max 0 (i + int n)) else min (nat i) n)"

definition py_slice :: "'a list \<Rightarrow> int \<Rightarrow> int \<Rightarrow> 'a list" where
  "py_slice xs b e = (let lo = py_bound (length xs) b; hi = py_bound (length xs) e
                      in take (hi - lo) (drop lo xs))"

text \<open>
  The classes of the module are extension types, whose \<^verbatim>\<open>cdef\<close> attributes are C
  fields. Through a reference of known type (\<^verbatim>\<open>self\<close>, a typed argument, a \<^verbatim>\<open>cdef\<close>
  variable, a cast) the compiled code reads and writes the field. Through any other
  reference the attribute is looked up on a Python object: an attribute declared
  \<^verbatim>\<open>readonly\<close> can be read there and not assigned, one declared with no visibility
  can be neither, and the attempt raises \<^verbatim>\<open>AttributeError\<close>. The argument of
  \<open>getattr_private\<close> is the value that the field holds, the argument of
  \<open>setattr_readonly\<close> the object as the assignment would leave it.
\<close>

definition getattr_private :: "'a \<Rightarrow> error + 'a" where
  "getattr_private v = Inl AttributeError"

definition setattr_readonly :: "'a \<Rightarrow> error + 'a" where
  "setattr_readonly obj = Inl AttributeError"

section \<open>ChargeInfo\<close>

text \<open>The attribute \<^verbatim>\<open>mod\<close> is the field \<open>mod_ci\<close>.\<close>

record ChargeInfo =
  qnumber :: nat
  mod_ci :: "int list"
  names :: "string list"

definition test_sanity_ci :: "ChargeInfo \<Rightarrow> error + unit" where
  "test_sanity_ci self =
     (if length (names self) \<noteq> qnumber self then Inl ValueError
      else if list_ex (\<lambda>m. m < 0) (mod_ci self) then Inl ValueError
      else Inr ())"

text \<open>\<^verbatim>\<open>ChargeInfo.__init__(mod, names)\<close>; \<open>None\<close> is the default \<^verbatim>\<open>names=None\<close>.\<close>

definition ChargeInfo_init :: "int list \<Rightarrow> string list option \<Rightarrow> error + ChargeInfo" where
  "ChargeInfo_init md nms =
     (let self = \<lparr> qnumber = length md, mod_ci = md,
                   names = (case nms of None \<Rightarrow> replicate (length md) [] | Some ns \<Rightarrow> ns) \<rparr>
      in bind_r (test_sanity_ci self) (\<lambda>_. Inr self))"

text \<open>C's \<^verbatim>\<open>a % q\<close> (the module is compiled with \<^verbatim>\<open>cdivision(True)\<close>): the
  remainder of the division that truncates towards zero; it has the sign of \<open>a\<close>.\<close>

definition c_mod :: "int \<Rightarrow> int \<Rightarrow> int" where
  "c_mod a q = sgn a * (\<bar>a\<bar> mod \<bar>q\<bar>)"

text \<open>The body of the loops of \<^verbatim>\<open>_make_valid_1D\<close> and \<^verbatim>\<open>_make_valid_2D\<close> for one
  entry \<open>x\<close> of a column with modulus \<open>q\<close>.\<close>

definition make_valid_entry :: "int \<Rightarrow> int \<Rightarrow> error + int" where
  "make_valid_entry q x =
     (if q = 1 then Inr x
      else if q = 0 then Inl Undefined
      else (let r = c_mod x q in Inr (if r < 0 then r + q else r)))"

text \<open>\<^verbatim>\<open>_make_valid_1D\<close>: \<^verbatim>\<open>for j in range(self.qnumber)\<close> over \<^verbatim>\<open>self.mod[j]\<close> and
  \<^verbatim>\<open>charges[j]\<close>.\<close>

fun make_valid_1D :: "int list \<Rightarrow> int list \<Rightarrow> error + int list" where
  "make_valid_1D (q # qs) (x # xs) =
     (case make_valid_entry q x of
        Inl e \<Rightarrow> Inl e
      | Inr y \<Rightarrow> (case make_valid_1D qs xs of Inl e \<Rightarrow> Inl e | Inr ys \<Rightarrow> Inr (y # ys)))"
| "make_valid_1D _ _ = Inr []"

text \<open>\<^verbatim>\<open>_make_valid_2D\<close> walks the array column by column; each entry is treated as in
  the one-dimensional case, so the result is the row-wise one. With no row, no entry
  is touched.\<close>

definition make_valid_2D :: "int list \<Rightarrow> int list list \<Rightarrow> error + int list list" where
  "make_valid_2D qs rows = map_r (make_valid_1D qs) rows"

text \<open>\<^verbatim>\<open>make_valid(charges)\<close> on a one-dimensional and on a two-dimensional argument.\<close>

definition make_valid_vec :: "ChargeInfo \<Rightarrow> int list \<Rightarrow> error + int list" where
  "make_valid_vec self charges =
     (if length charges \<noteq> qnumber self then Inl AssertionError
      else make_valid_1D (mod_ci self) charges)"

definition make_valid_mat :: "ChargeInfo \<Rightarrow> int list list \<Rightarrow> error + int list list" where
  "make_valid_mat self charges =
     (if list_ex (\<lambda>row. length row \<noteq> qnumber self) charges then Inl AssertionError
      else make_valid_2D (mod_ci self) charges)"

text \<open>\<^verbatim>\<open>check_valid\<close>: false at the first entry outside \<open>[0, q)\<close> of a column with
  \<open>q \<noteq> 1\<close>.\<close>

definition check_valid_row :: "int list \<Rightarrow> int list \<Rightarrow> bool" where
  "check_valid_row qs row = list_all (\<lambda>(q, x). q = 1 \<or> (0 \<le> x \<and> x < q)) (zip qs row)"

definition check_valid :: "ChargeInfo \<Rightarrow> int list list \<Rightarrow> bool" where
  "check_valid self charges = list_all (check_valid_row (mod_ci self)) charges"

text \<open>\<^verbatim>\<open>np.all(self.mod == other.mod)\<close>: two arrays of one length are compared entry
  by entry, an array of length 1 is broadcast against the other one, and two shapes
  that do not broadcast compare unequal as a whole.\<close>

definition np_all_equal :: "int list \<Rightarrow> int list \<Rightarrow> bool" where
  "np_all_equal a b =
     (if length a = length b then a = b
      else if length a = 1 then list_all (\<lambda>y. hd a = y) b
      else if length b = 1 then list_all (\<lambda>x. x = hd b) a
      else False)"

text \<open>\<^verbatim>\<open>ChargeInfo._equal(self, other)\<close>. Whether \<^verbatim>\<open>self is other\<close> holds is not a
  function of the two values: \<open>is_other\<close> is the outcome of that test. The argument
  \<^verbatim>\<open>other\<close> is untyped. Its \<^verbatim>\<open>mod\<close> is declared \<^verbatim>\<open>readonly\<close> and can be read; its
  \<^verbatim>\<open>names\<close> is declared \<^verbatim>\<open>cdef list names\<close>, so \<^verbatim>\<open>other.names\<close>, an argument of
  \<^verbatim>\<open>izip\<close>, raises before the loop over the pairs of names (no pair both given and
  different) is entered.\<close>

definition ChargeInfo_equal :: "bool \<Rightarrow> ChargeInfo \<Rightarrow> ChargeInfo \<Rightarrow> error + bool" where
  "ChargeInfo_equal is_other self other =
     (if is_other then Inr True
      else if \<not> np_all_equal (mod_ci self) (mod_ci other) then Inr False
      else bind_r (getattr_private (names other)) (\<lambda>other_names.
             Inr (list_all (\<lambda>(l, r). \<not> (r \<noteq> l \<and> l \<noteq> [] \<and> r \<noteq> []))
                    (zip (names self) other_names))))"

section \<open>LegCharge\<close>

text \<open>The attribute \<^verbatim>\<open>sorted\<close> is the field \<open>sorted_flag\<close>.\<close>

record LegCharge =
  ind_len :: int
  block_number :: nat
  chinfo :: ChargeInfo
  slices :: "int list"
  charges :: "int list list"
  qconj :: int
  sorted_flag :: bool
  bunched :: bool

definition test_sanity :: "'a LegCharge_scheme \<Rightarrow> error + unit" where
  "test_sanity self =
     (if length (slices self) \<noteq> block_number self + 1 then Inl ValueError
      else if slices self ! 0 \<noteq> 0 then Inl ValueError
      else if list_ex (\<lambda>row. length row \<noteq> qnumber (chinfo self)) (charges self)
        then Inl ValueError
      else if \<not> check_valid (chinfo self) (charges self) then Inl ValueError
      else if qconj self \<noteq> - 1 \<and> qconj self \<noteq> 1 then Inl ValueError
      else Inr ())"

text \<open>\<^verbatim>\<open>LegCharge.__init__\<close>; \<^verbatim>\<open>self.slices[-1]\<close> raises on an empty sequence.\<close>

definition LegCharge_init ::
  "ChargeInfo \<Rightarrow> int list \<Rightarrow> int list list \<Rightarrow> int \<Rightarrow> error + LegCharge" where
  "LegCharge_init chargeinfo sl ch qc =
     bind_r (py_get sl (- 1)) (\<lambda>l.
       let self = \<lparr> ind_len = l, block_number = length ch, chinfo = chargeinfo,
                    slices = sl, charges = ch, qconj = qc,
                    sorted_flag = False, bunched = False \<rparr>
       in bind_r (test_sanity self) (\<lambda>_. Inr self))"

text \<open>\<^verbatim>\<open>conj\<close>: a shallow copy with the opposite \<^verbatim>\<open>qconj\<close>.\<close>

definition conj_leg :: "'a LegCharge_scheme \<Rightarrow> 'a LegCharge_scheme" where
  "conj_leg self = self\<lparr> qconj := - qconj self \<rparr>"

text \<open>The private setters and getters.\<close>

definition set_charges :: "'a LegCharge_scheme \<Rightarrow> int list list \<Rightarrow> 'a LegCharge_scheme" where
  "set_charges self ch = self\<lparr> charges := ch, block_number := length ch \<rparr>"

definition set_slices :: "'a LegCharge_scheme \<Rightarrow> int list \<Rightarrow> error + 'a LegCharge_scheme" where
  "set_slices self sl = bind_r (py_get sl (- 1)) (\<lambda>l. Inr (self\<lparr> slices := sl, ind_len := l \<rparr>))"

fun cumsum_from :: "int \<Rightarrow> int list \<Rightarrow> int list" where
  "cumsum_from a [] = []"
| "cumsum_from a (x # xs) = (a + x) # cumsum_from (a + x) xs"

definition cumsum :: "int list \<Rightarrow> int list" where
  "cumsum xs = cumsum_from 0 xs"

definition set_block_sizes :: "'a LegCharge_scheme \<Rightarrow> int list \<Rightarrow> error + 'a LegCharge_scheme" where
  "set_block_sizes self block_sizes = set_slices self (0 # cumsum block_sizes)"

definition get_block_sizes :: "'a LegCharge_scheme \<Rightarrow> int list" where
  "get_block_sizes self = map2 (\<lambda>stop start. stop - start) (tl (slices self)) (butlast (slices self))"

definition slice_start_stop :: "'a LegCharge_scheme \<Rightarrow> (int \<times> int) list" where
  "slice_start_stop self = zip (butlast (slices self)) (tl (slices self))"

text \<open>\<^verbatim>\<open>to_qflat\<close> fills a fresh \<^verbatim>\<open>np.empty((ind_len, qnumber))\<close> block by block. A
  row that no block writes keeps whatever the memory held: it is \<open>None\<close> here.\<close>

definition assign_slice :: "'a option list \<Rightarrow> int \<Rightarrow> int \<Rightarrow> 'a \<Rightarrow> 'a option list" where
  "assign_slice qflat start stop v =
     (let lo = py_bound (length qflat) start; hi = py_bound (length qflat) stop
      in take lo qflat @ replicate (hi - lo) (Some v) @ drop (max lo hi) qflat)"

definition to_qflat :: "'a LegCharge_scheme \<Rightarrow> error + int list option list" where
  "to_qflat self =
     (if ind_len self < 0 then Inl ValueError
      else Inr (foldl (\<lambda>qflat (start, stop, ch). assign_slice qflat start stop ch)
                  (replicate (nat (ind_len self)) None)
                  (zip (butlast (slices self)) (zip (tl (slices self)) (charges self)))))"

text \<open>\<^verbatim>\<open>_c_find_row_differences(qflat)\<close> for an array with \<open>M\<close> columns. The result
  \<^verbatim>\<open>res\<close> is an untyped array of \<open>L + 1\<close> entries: with a column but no row, the last
  store \<^verbatim>\<open>res[n] = L\<close> has \<open>n = 1\<close> and raises.\<close>

definition c_find_row_differences :: "nat \<Rightarrow> int list list \<Rightarrow> error + nat list" where
  "c_find_row_differences M qflat =
     (let L = length qflat
      in if M = 0 then Inr [0, L]
         else if L = 0 then Inl IndexError
         else Inr (0 # filter (\<lambda>i. qflat ! (i - 1) \<noteq> qflat ! i) [1..<L] @ [L]))"

text \<open>\<^verbatim>\<open>is_blocked\<close>: the set of the rows has as many elements as there are blocks.\<close>

definition is_blocked :: "'a LegCharge_scheme \<Rightarrow> bool" where
  "is_blocked self =
     (if sorted_flag self \<and> bunched self then True
      else length (remdups (charges self)) = block_number self)"

text \<open>\<^verbatim>\<open>lexsort\<close> is imported from \<^verbatim>\<open>tenpy.tools.misc\<close>, which is not part of the
  sources at hand. The functions that call it take it as the argument \<open>lexsort\<close>: the
  function that maps the rows of \<^verbatim>\<open>charges\<close> (the source passes the transpose
  \<^verbatim>\<open>charges.T\<close>) to the sorting permutation.\<close>

definition is_sorted :: "(int list list \<Rightarrow> nat list) \<Rightarrow> 'a LegCharge_scheme \<Rightarrow> bool" where
  "is_sorted lexsort self =
     (if qnumber (chinfo self) = 0 then True
      else (let res = lexsort (charges self) in res = [0..<length res]))"

definition is_bunched :: "'a LegCharge_scheme \<Rightarrow> error + bool" where
  "is_bunched self =
     bind_r (c_find_row_differences (qnumber (chinfo self)) (charges self))
       (\<lambda>d. Inr (length d = block_number self + 1))"

text \<open>\<^verbatim>\<open>from_qind\<close>.\<close>

definition from_qind ::
  "(int list list \<Rightarrow> nat list) \<Rightarrow> ChargeInfo \<Rightarrow> int list \<Rightarrow> int list list \<Rightarrow> int
     \<Rightarrow> error + LegCharge" where
  "from_qind lexsort chargeinfo sl ch qc =
     bind_r (LegCharge_init chargeinfo sl ch qc) (\<lambda>res.
       let res = res\<lparr> sorted_flag := is_sorted lexsort res \<rparr>
       in bind_r (is_bunched res) (\<lambda>b. Inr (res\<lparr> bunched := b \<rparr>)))"

text \<open>\<^verbatim>\<open>reshape((-1, q))\<close> of an array with the entries \<open>xs\<close> in row-major order, for
  \<open>q\<close> positive and dividing their number.\<close>

definition reshape_rows :: "nat \<Rightarrow> int list \<Rightarrow> int list list" where
  "reshape_rows q xs = map (\<lambda>i. take q (drop (i * q) xs)) [0..<length xs div q]"

text \<open>\<^verbatim>\<open>from_qdict\<close>. The dictionary is the list of its items \<open>(charges, (start, stop))\<close>
  in the order in which \<^verbatim>\<open>keys()\<close> and \<^verbatim>\<open>values()\<close> iterate. \<^verbatim>\<open>np.array\<close> of the
  keys raises when they are tuples of different lengths, and
  \<^verbatim>\<open>reshape((-1, qnumber))\<close> raises when \<^verbatim>\<open>qnumber\<close> is 0 or does not divide the number
  of entries; keys of another length whose entries fill whole rows are reshaped.
  With no item, \<^verbatim>\<open>slices[:, 0]\<close> indexes a one-dimensional array twice and raises.
  \<^verbatim>\<open>np.argsort\<close> of the starts is the stable sort of the positions, and
  \<^verbatim>\<open>charges[sort, :]\<close> raises when the reshaped array has fewer rows than there are
  items.\<close>

definition from_qdict ::
  "ChargeInfo \<Rightarrow> (int list \<times> (int \<times> int)) list \<Rightarrow> int \<Rightarrow> error + LegCharge" where
  "from_qdict chargeinfo qdict qc =
     (let sl2 = map snd qdict; keys = map fst qdict; q = qnumber chargeinfo
      in if list_ex (\<lambda>key. length key \<noteq> length (hd keys)) keys then Inl ValueError
         else if q = 0 \<or> length (concat keys) mod q \<noteq> 0 then Inl ValueError
         else if qdict = [] then Inl IndexError
         else
           (let srt = sort_key (\<lambda>i. fst (sl2 ! i)) [0..<length sl2];
                sl2 = map (\<lambda>i. sl2 ! i) srt
            in bind_r (take_idx (reshape_rows q (concat keys)) srt) (\<lambda>ch.
               if map snd (butlast sl2) \<noteq> map fst (tl sl2) then Inl ValueError
               else bind_r (LegCharge_init chargeinfo (map fst sl2 @ [snd (last sl2)]) ch qc)
                      (\<lambda>res. let res = res\<lparr> sorted_flag := True \<rparr>
                              in bind_r (is_bunched res) (\<lambda>b. Inr (res\<lparr> bunched := b \<rparr>))))))"

text \<open>\<^verbatim>\<open>test_equal\<close> and \<^verbatim>\<open>test_contractible\<close>. Whether two references hold the same
  object is not a function of the values: \<open>chinfo_is\<close>, \<open>charges_is\<close> and \<open>slices_is\<close>
  are the outcomes of \<^verbatim>\<open>self.chinfo is other.chinfo\<close> (the first test of
  \<^verbatim>\<open>self.chinfo != other.chinfo\<close>), \<^verbatim>\<open>self.charges is other.charges\<close> and
  \<^verbatim>\<open>self.slices is other.slices\<close>. \<^verbatim>\<open>other.conj()\<close> is a shallow copy, which shares the
  three objects with \<open>other\<close>, so the three outcomes are the same for it.\<close>

definition test_equal ::
  "bool \<Rightarrow> bool \<Rightarrow> bool \<Rightarrow> 'a LegCharge_scheme \<Rightarrow> 'b LegCharge_scheme \<Rightarrow> error + unit" where
  "test_equal chinfo_is charges_is slices_is self other =
     bind_r (ChargeInfo_equal chinfo_is (chinfo self) (chinfo other)) (\<lambda>eq.
       if \<not> eq then Inl ValueError
       else if charges_is \<and> qconj self = qconj other \<and>
               (slices_is \<or> slices self = slices other) then Inr ()
       else if slices self \<noteq> slices other \<or>
               map (map (\<lambda>c. c * qconj self)) (charges self) \<noteq>
               map (map (\<lambda>c. c * qconj other)) (charges other) then Inl ValueError
       else Inr ())"

definition test_contractible ::
  "bool \<Rightarrow> bool \<Rightarrow> bool \<Rightarrow> 'a LegCharge_scheme \<Rightarrow> 'b LegCharge_scheme \<Rightarrow> error + unit" where
  "test_contractible chinfo_is charges_is slices_is self other =
     test_equal chinfo_is charges_is slices_is self (conj_leg other)"

text \<open>\<^verbatim>\<open>bisect.bisect(a, x)\<close> of the standard library: the binary search for the
  insertion point to the right of \<open>x\<close>.\<close>

function bisect_loop :: "int list \<Rightarrow> int \<Rightarrow> nat \<Rightarrow> nat \<Rightarrow> nat" where
  "bisect_loop a x lo hi =
     (if lo < hi
      then (if x < a ! ((lo + hi) div 2)
            then bisect_loop a x lo ((lo + hi) div 2)
            else bisect_loop a x ((lo + hi) div 2 + 1) hi)
      else lo)"
  by pat_completeness auto
termination
  by (relation "measure (\<lambda>(a, x, lo, hi). hi - lo)") auto

declare bisect_loop.simps [simp del]

definition bisect :: "int list \<Rightarrow> int \<Rightarrow> nat" where
  "bisect a x = bisect_loop a x 0 (length a)"

text \<open>\<^verbatim>\<open>get_qindex\<close>.\<close>

definition find_qindex :: "'a LegCharge_scheme \<Rightarrow> int \<Rightarrow> error + (int \<times> int)" where
  "find_qindex self flat_index =
     (let qind = int (bisect (slices self) flat_index) - 1
      in bind_r (py_get (slices self) qind) (\<lambda>start. Inr (qind, flat_index - start)))"

definition get_qindex :: "'a LegCharge_scheme \<Rightarrow> int \<Rightarrow> error + (int \<times> int)" where
  "get_qindex self flat_index =
     (if flat_index < 0
      then (if flat_index + ind_len self < 0 then Inl IndexError
            else find_qindex self (flat_index + ind_len self))
      else if flat_index > ind_len self then Inl IndexError
      else find_qindex self flat_index)"

text \<open>\<^verbatim>\<open>get_charge\<close>.\<close>

definition get_charge :: "'a LegCharge_scheme \<Rightarrow> int \<Rightarrow> error + int list" where
  "get_charge self qindex =
     bind_r (py_get (charges self) qindex) (\<lambda>row. Inr (map (\<lambda>c. c * qconj self) row))"

text \<open>\<^verbatim>\<open>bunch\<close>.\<close>

definition bunch :: "'a LegCharge_scheme \<Rightarrow> error + (nat list \<times> 'a LegCharge_scheme)" where
  "bunch self =
     (if bunched self then Inr ([0..<block_number self + 1], self)
      else
        bind_r (c_find_row_differences (qnumber (chinfo self)) (charges self)) (\<lambda>idx.
        bind_r (take_idx (charges self) (butlast idx)) (\<lambda>ch.
        bind_r (take_idx (slices self) idx) (\<lambda>sl.
        bind_r (set_slices (set_charges self ch) sl) (\<lambda>cp.
          Inr (idx, cp\<lparr> bunched := True \<rparr>))))))"

text \<open>\<^verbatim>\<open>sort\<close>.\<close>

definition sort_leg ::
  "(int list list \<Rightarrow> nat list) \<Rightarrow> 'a LegCharge_scheme \<Rightarrow> bool
     \<Rightarrow> error + (nat list \<times> 'a LegCharge_scheme)" where
  "sort_leg lexsort self bnch =
     (if sorted_flag self \<and> (\<not> bnch \<or> bunched self) then Inr ([0..<block_number self], self)
      else
        (let perm_qind = lexsort (charges self)
         in bind_r (take_idx (charges self) perm_qind) (\<lambda>ch.
            bind_r (take_idx (get_block_sizes self) perm_qind) (\<lambda>bs.
            bind_r (set_block_sizes (set_charges self ch) bs) (\<lambda>cp.
              if bnch
              then bind_r (bunch (cp\<lparr> sorted_flag := True \<rparr>)) (\<lambda>(idx, cp'). Inr (perm_qind, cp'))
              else Inr (perm_qind, cp\<lparr> sorted_flag := True, bunched := False \<rparr>))))))"

text \<open>\<^verbatim>\<open>np.sum\<close> of a boolean mask counts its true entries.\<close>

definition np_sum :: "bool list \<Rightarrow> nat" where
  "np_sum bm = length (filter (\<lambda>m. m) bm)"

text \<open>\<^verbatim>\<open>project\<close> with the mask \<open>msk\<close>.
  \<^verbatim>\<open>map_qind[keep] = np.arange(len(keep))\<close> raises for an index past \<^verbatim>\<open>map_qind\<close>.\<close>

definition project ::
  "'a LegCharge_scheme \<Rightarrow> bool list
     \<Rightarrow> error + (int list \<times> bool list list \<times> 'a LegCharge_scheme)" where
  "project self msk =
     (let block_masks = map (\<lambda>(b, e). py_slice msk b e) (slice_start_stop self);
          new_block_lens = map np_sum block_masks;
          keep = filter (\<lambda>i. new_block_lens ! i \<noteq> 0) [0..<length new_block_lens]
      in bind_r (take_idx (charges self) keep) (\<lambda>ch.
           if list_ex (\<lambda>i. block_number self \<le> i) keep then Inl IndexError
           else
             (let map_qind = fold (\<lambda>(k, i) m. m[i := int k]) (enumerate 0 keep)
                               (replicate (block_number self) (- 1))
              in bind_r (set_block_sizes (set_charges self ch)
                           (map (\<lambda>i. int (new_block_lens ! i)) keep)) (\<lambda>cp.
                   Inr (map_qind, map (\<lambda>i. block_masks ! i) keep,
                        cp\<lparr> bunched := is_blocked self \<rparr>)))))"

section \<open>LegPipe\<close>

text \<open>A \<^verbatim>\<open>LegPipe\<close> is a \<^verbatim>\<open>LegCharge\<close> with further attributes: the record extends
  the record of the leg, and the functions of the leg apply to it. \<^verbatim>\<open>_perm\<close> and
  \<^verbatim>\<open>_strides\<close> are the fields \<open>perm\<close> and \<open>strides\<close>; \<open>perm = None\<close> is
  \<^verbatim>\<open>_perm = None\<close>. The incoming legs are kept as plain legs.\<close>

record LegPipe = LegCharge +
  nlegs :: nat
  legs :: "LegCharge list"
  subshape :: "int list"
  subqshape :: "nat list"
  q_map :: "int list list"
  q_map_slices :: "int list list list"
  perm :: "nat list option"
  strides :: "nat list"

text \<open>A read \<^verbatim>\<open>a[i]\<close> in a function compiled with \<^verbatim>\<open>boundscheck(False)\<close>.\<close>

definition nth_c :: "'a list \<Rightarrow> nat \<Rightarrow> error + 'a" where
  "nth_c xs i = (if i < length xs then Inr (xs ! i) else Inl Undefined)"

text \<open>Modelled from the spec: \<^verbatim>\<open>tenpy.tools.misc.inverse_permutation\<close> is not among the
  sources. The specification has the construction "record the inverse permutation as
  \<^verbatim>\<open>_perm\<close>": entry \<open>j\<close> is the position of \<open>j\<close> in the permutation.\<close>

definition inverse_permutation :: "nat list \<Rightarrow> nat list" where
  "inverse_permutation p = map (\<lambda>j. length (takeWhile (\<lambda>x. x \<noteq> j) p)) [0..<length p]"

text \<open>The columns of \<^verbatim>\<open>grid2\<close>, that is the rows of \<^verbatim>\<open>grid2.T\<close>: every combination of
  block indices of the incoming legs, the last index running fastest.\<close>

definition grid_rows :: "nat list \<Rightarrow> nat list list" where
  "grid_rows qshape = product_lists (map (\<lambda>l. [0..<l]) qshape)"

text \<open>The loop \<^verbatim>\<open>blocksizes[j] *= leg_bs[grid2[i, j]]\<close> over the legs \<open>i\<close>, for one
  combination \<open>j\<close>, started at \<open>b\<close>.\<close>

fun mult_block_sizes :: "int \<Rightarrow> LegCharge list \<Rightarrow> nat list \<Rightarrow> error + int" where
  "mult_block_sizes b [] qs = Inr b"
| "mult_block_sizes b (l # ls) [] = Inl Undefined"
| "mult_block_sizes b (l # ls) (q # qs) =
     bind_r (nth_c (get_block_sizes l) q) (\<lambda>s. mult_block_sizes (b * s) ls qs)"

text \<open>The loop \<^verbatim>\<open>charges[j, k] += sign * legcharges[grid2[i, j], k]\<close> over the legs
  \<open>i\<close> and the columns \<open>k\<close>, for one combination \<open>j\<close>, started at the row \<open>acc\<close>;
  \<open>qc\<close> is the \<^verbatim>\<open>qconj\<close> of the pipe.\<close>

fun add_leg_charges :: "int \<Rightarrow> int list \<Rightarrow> LegCharge list \<Rightarrow> nat list \<Rightarrow> error + int list" where
  "add_leg_charges qc acc [] qs = Inr acc"
| "add_leg_charges qc acc (l # ls) [] = Inl Undefined"
| "add_leg_charges qc acc (l # ls) (q # qs) =
     bind_r (nth_c (charges l) q) (\<lambda>row.
       if length row < length acc then Inl Undefined
       else add_leg_charges qc (map2 (\<lambda>a c. a + qc * qconj l * c) acc row) ls qs)"

text \<open>The last column of \<^verbatim>\<open>q_map\<close> after bunching: the rows \<open>idx[i], ..., idx[i+1]-1\<close>
  get the value \<open>i\<close>, and the rows from \<open>idx[-1]\<close> on the number of these ranges. A row
  that no loop reaches keeps what \<^verbatim>\<open>np.empty\<close> left there: \<open>None\<close>.\<close>

definition fused_index_column :: "nat \<Rightarrow> nat list \<Rightarrow> int option list" where
  "fused_index_column nblocks idx =
     assign_slice
       (foldl (\<lambda>col (a, lo, hi). assign_slice col (int lo) (int hi) (int a))
          (replicate nblocks None)
          (enumerate 0 (zip (butlast idx) (tl idx))))
       (int (last idx)) (int nblocks) (int (length idx - 1))"

text \<open>One row of the finished \<^verbatim>\<open>q_map\<close>: the slice of the combination inside its fused
  block, the block indices of the combination, and the index of the fused block.\<close>

definition q_map_row :: "int list \<Rightarrow> int list \<Rightarrow> nat \<Rightarrow> nat list \<Rightarrow> int option \<Rightarrow> error + int list" where
  "q_map_row slices_sorted slices_fused j combo fused =
     (case fused of
        None \<Rightarrow> Inl Undefined
      | Some I \<Rightarrow>
          if I < 0 then Inl Undefined
          else bind_r (nth_c slices_fused (nat I)) (\<lambda>a.
               bind_r (nth_c slices_sorted j) (\<lambda>b.
               bind_r (nth_c slices_sorted (j + 1)) (\<lambda>e.
                 Inr ([b - a, e - a] @ map int combo @ [I])))))"

text \<open>\<^verbatim>\<open>_init_from_legs(sort, bunch)\<close>, stage by stage. First the total charges of all
  combinations: nothing is added or reduced when there is no charge.\<close>

definition total_charges ::
  "ChargeInfo \<Rightarrow> int \<Rightarrow> LegCharge list \<Rightarrow> nat list list \<Rightarrow> error + int list list" where
  "total_charges ci qc lgs grid =
     (if 0 < qnumber ci
      then bind_r (map_r (add_leg_charges qc (replicate (qnumber ci) 0) lgs) grid)
             (\<lambda>ch. bind_r (make_valid_mat ci ch) (make_valid_mat ci))
      else Inr (replicate (length grid) []))"

text \<open>The stage \<^verbatim>\<open>if sort:\<close> permutes the combinations, their charges and their block
  sizes, and yields \<^verbatim>\<open>_perm\<close>.\<close>

definition sort_by_charge ::
  "(int list list \<Rightarrow> nat list) \<Rightarrow> bool \<Rightarrow> nat list list \<Rightarrow> int list list \<Rightarrow> int list
     \<Rightarrow> error + (nat list list \<times> int list list \<times> int list \<times> nat list option)" where
  "sort_by_charge lexsort srt grid ch blocksizes =
     (if srt
      then (let perm_qind = lexsort ch
            in bind_r (take_idx grid perm_qind) (\<lambda>g.
               bind_r (take_idx ch perm_qind) (\<lambda>c.
               bind_r (take_idx blocksizes perm_qind) (\<lambda>b.
                 Inr (g, c, b, Some (inverse_permutation perm_qind))))))
      else Inr (grid, ch, blocksizes, None))"

text \<open>The stage \<^verbatim>\<open>if bunch:\<close> yields the pipe with the bunched charges and slices, the
  index array \<^verbatim>\<open>idx\<close> and the last column of \<^verbatim>\<open>q_map\<close>.\<close>

definition bunch_pipe ::
  "bool \<Rightarrow> LegPipe \<Rightarrow> nat \<Rightarrow> error + (LegPipe \<times> nat list \<times> int option list)" where
  "bunch_pipe bnch self nblocks =
     (if bnch
      then bind_r (bunch self) (\<lambda>(idx, bunched).
           bind_r (set_slices (set_charges self (charges bunched)) (slices bunched))
             (\<lambda>self'. Inr (self', idx, fused_index_column nblocks idx)))
      else Inr (self, [0..<nblocks + 1], map (\<lambda>j. Some (int j)) [0..<nblocks]))"

definition init_from_legs ::
  "(int list list \<Rightarrow> nat list) \<Rightarrow> LegPipe \<Rightarrow> bool \<Rightarrow> bool \<Rightarrow> error + LegPipe" where
  "init_from_legs lexsort self srt bnch =
     (let qshape = subqshape self; grid = grid_rows qshape; nblocks = length grid;
          self = self\<lparr> strides := map (\<lambda>i. prod_list (drop (i + 1) qshape)) [0..<nlegs self] \<rparr>
      in
      bind_r (map_r (mult_block_sizes 1 (legs self)) grid) (\<lambda>blocksizes.
      bind_r (total_charges (chinfo self) (qconj self) (legs self) grid) (\<lambda>ch.
      bind_r (sort_by_charge lexsort srt grid ch blocksizes) (\<lambda>(grid, ch, blocksizes, prm).
      bind_r (set_block_sizes ((set_charges (self\<lparr> perm := prm \<rparr>) ch)\<lparr> sorted_flag := srt \<rparr>)
                blocksizes) (\<lambda>self.
      bind_r (bunch_pipe bnch self nblocks) (\<lambda>(self', idx, col).
      bind_r (map_r (\<lambda>j. q_map_row (slices self) (slices self') j (grid ! j) (col ! j))
                [0..<nblocks]) (\<lambda>qm.
        Inr (self'\<lparr> q_map := qm,
                    q_map_slices := map (\<lambda>i. py_slice qm (int (idx ! i)) (int (idx ! (i + 1))))
                                      [0..<length idx - 1] \<rparr>))))))))"

text \<open>\<^verbatim>\<open>LegPipe.test_sanity\<close>. The list \<^verbatim>\<open>[l.chinfo == self.chinfo for l in self.legs]\<close>
  is built leg by leg, each entry by \<^verbatim>\<open>_equal\<close> of the leg's ChargeInfo on the pipe's;
  \<open>chinfo_is i\<close> is the outcome of \<^verbatim>\<open>self.legs[i].chinfo is self.chinfo\<close>.\<close>

definition test_sanity_pipe :: "(nat \<Rightarrow> bool) \<Rightarrow> LegPipe \<Rightarrow> error + unit" where
  "test_sanity_pipe chinfo_is self =
     bind_r (test_sanity self) (\<lambda>_.
     bind_r (map_r (\<lambda>i. ChargeInfo_equal (chinfo_is i) (chinfo (legs self ! i)) (chinfo self))
               [0..<length (legs self)]) (\<lambda>eqs.
       if \<not> list_all (\<lambda>eq. eq) eqs then Inl AssertionError
       else if subshape self \<noteq> map ind_len (legs self) then Inl AssertionError
       else if subqshape self \<noteq> map block_number (legs self) then Inl AssertionError
       else Inr ()))"

text \<open>\<^verbatim>\<open>LegPipe.__init__(legs, qconj, sort, bunch)\<close>. The pipe takes the ChargeInfo
  object of the first leg; \<open>chinfo_is i\<close> is the outcome of
  \<^verbatim>\<open>legs[i].chinfo is legs[0].chinfo\<close> for the later legs.\<close>

definition LegPipe_init ::
  "(int list list \<Rightarrow> nat list) \<Rightarrow> (nat \<Rightarrow> bool) \<Rightarrow> LegCharge list \<Rightarrow> int \<Rightarrow> bool \<Rightarrow> bool
     \<Rightarrow> error + LegPipe" where
  "LegPipe_init lexsort chinfo_is lgs qc srt bnch =
     (case lgs of
        [] \<Rightarrow> Inl IndexError
      | l0 # _ \<Rightarrow>
          bind_r (LegCharge_init (chinfo l0) [0, 1] [replicate (qnumber (chinfo l0)) 0] qc)
            (\<lambda>base.
               bind_r (init_from_legs lexsort
                         \<lparr> ind_len = ind_len base, block_number = block_number base,
                           chinfo = chinfo base, slices = slices base, charges = charges base,
                           qconj = qconj base, sorted_flag = sorted_flag base,
                           bunched = bunched base,
                           nlegs = length lgs, legs = lgs, subshape = map ind_len lgs,
                           subqshape = map block_number lgs, q_map = [], q_map_slices = [],
                           perm = None, strides = [] \<rparr> srt bnch)
                 (\<lambda>self. bind_r (test_sanity_pipe (\<lambda>i. i = 0 \<or> chinfo_is i) self)
                            (\<lambda>_. Inr self))))"

text \<open>\<^verbatim>\<open>LegPipe.conj\<close> assigns through the typed \<^verbatim>\<open>cdef LegPipe res\<close>, and the
  \<^verbatim>\<open>conj\<close> of the base class through the cast \<^verbatim>\<open>(<LegCharge> res)\<close>.\<close>

definition conj_pipe :: "LegPipe \<Rightarrow> LegPipe" where
  "conj_pipe self = (conj_leg self)\<lparr> legs := map conj_leg (legs self) \<rparr>"

text \<open>\<^verbatim>\<open>LegPipe.outer_conj\<close>. The copy \<^verbatim>\<open>res = copy.copy(self)\<close> is an untyped variable,
  and \<^verbatim>\<open>qconj\<close> is declared \<^verbatim>\<open>cdef readonly int qconj\<close>: the statement
  \<^verbatim>\<open>res.qconj = -1\<close> is an assignment to a read-only attribute of a Python object. The
  two statements after it are those of the source.\<close>

definition outer_conj :: "LegPipe \<Rightarrow> error + LegPipe" where
  "outer_conj self =
     bind_r (setattr_readonly (self\<lparr> qconj := - 1 \<rparr>)) (\<lambda>res.
     bind_r (make_valid_mat (chinfo self) (map (map uminus) (charges self))) (\<lambda>ch.
       Inr (set_charges res ch)))"

text \<open>\<^verbatim>\<open>LegPipe.to_LegCharge\<close>.\<close>

definition to_LegCharge :: "LegPipe \<Rightarrow> error + LegCharge" where
  "to_LegCharge self = LegCharge_init (chinfo self) (slices self) (charges self) (qconj self)"

section \<open>Example data\<close>

text \<open>The leg of the specification's scenario: one charge modulo 2, block charges
  \<open>[[0], [1], [0]]\<close> and block sizes \<open>[2, 1, 3]\<close>, with the flags that
  \<^verbatim>\<open>from_qind\<close> computes for it.\<close>

definition parity_info :: ChargeInfo where
  "parity_info = \<lparr> qnumber = 1, mod_ci = [2], names = [''parity''] \<rparr>"

definition leg_A :: LegCharge where
  "leg_A = \<lparr> ind_len = 6, block_number = 3, chinfo = parity_info, slices = [0, 2, 3, 6],
             charges = [[0], [1], [0]], qconj = 1, sorted_flag = False, bunched = True \<rparr>"

text \<open>The scenario's leg after \<^verbatim>\<open>sort(bunch=True)\<close> as the specification describes it:
  the two blocks of charge 0 merged into one of size 5.\<close>

definition leg_S :: LegCharge where
  "leg_S = \<lparr> ind_len = 6, block_number = 2, chinfo = parity_info, slices = [0, 5, 6],
             charges = [[0], [1]], qconj = 1, sorted_flag = True, bunched = True \<rparr>"

text \<open>The scenario's leg sorted but not yet bunched.\<close>

definition leg_U :: LegCharge where
  "leg_U = \<lparr> ind_len = 6, block_number = 3, chinfo = parity_info, slices = [0, 2, 5, 6],
             charges = [[0], [0], [1]], qconj = 1, sorted_flag = True, bunched = False \<rparr>"

text \<open>The scenario's leg projected onto its first two blocks, as \<^verbatim>\<open>project\<close>
  returns it.\<close>

definition leg_P :: LegCharge where
  "leg_P = \<lparr> ind_len = 3, block_number = 2, chinfo = parity_info, slices = [0, 2, 3],
             charges = [[0], [1]], qconj = 1, sorted_flag = False, bunched = False \<rparr>"

text \<open>The scenario's blocks on a leg that points outwards, as
  \<^verbatim>\<open>from_qind(ChargeInfo([2], ['parity']), [0, 2, 3, 6], [[0], [1], [0]], qconj=-1)\<close>
  returns it.\<close>

definition leg_B :: LegCharge where
  "leg_B = \<lparr> ind_len = 6, block_number = 3, chinfo = parity_info, slices = [0, 2, 3, 6],
             charges = [[0], [1], [0]], qconj = - 1, sorted_flag = False, bunched = True \<rparr>"

text \<open>A leg that the constructor accepts although its slices go down: \<^verbatim>\<open>test_sanity\<close>
  compares only the number of slices and the first one.\<close>

definition leg_W :: LegCharge where
  "leg_W = \<lparr> ind_len = 4, block_number = 3, chinfo = parity_info, slices = [0, 3, 1, 4],
             charges = [[0], [1], [1]], qconj = 1, sorted_flag = False, bunched = False \<rparr>"

text \<open>Two legs with one charge modulo 3 and block counts 2 and 3, the second one
  pointing outwards, and the pipes that \<^verbatim>\<open>LegPipe(legs, qconj=-1)\<close> builds from them, with
  \<^verbatim>\<open>bunch=True\<close> and with \<^verbatim>\<open>bunch=False\<close>.\<close>

definition z3_info :: ChargeInfo where
  "z3_info = \<lparr> qnumber = 1, mod_ci = [3], names = [''z3''] \<rparr>"

definition leg_X :: LegCharge where
  "leg_X = \<lparr> ind_len = 3, block_number = 2, chinfo = z3_info, slices = [0, 2, 3],
             charges = [[0], [1]], qconj = 1, sorted_flag = True, bunched = True \<rparr>"

definition leg_Y :: LegCharge where
  "leg_Y = \<lparr> ind_len = 4, block_number = 3, chinfo = z3_info, slices = [0, 1, 2, 4],
             charges = [[0], [1], [2]], qconj = - 1, sorted_flag = True, bunched = True \<rparr>"

definition pipe_M :: LegPipe where
  "pipe_M = \<lparr> ind_len = 12, block_number = 3, chinfo = z3_info, slices = [0, 3, 7, 12],
              charges = [[0], [1], [2]], qconj = - 1, sorted_flag = True, bunched = False,
              nlegs = 2, legs = [leg_X, leg_Y], subshape = [3, 4], subqshape = [2, 3],
              q_map = [[0, 2, 0, 0, 0], [2, 3, 1, 1, 0], [0, 2, 0, 1, 1],
                       [2, 4, 1, 2, 1], [0, 4, 0, 2, 2], [4, 5, 1, 0, 2]],
              q_map_slices = [[[0, 2, 0, 0, 0], [2, 3, 1, 1, 0]],
                              [[0, 2, 0, 1, 1], [2, 4, 1, 2, 1]],
                              [[0, 4, 0, 2, 2], [4, 5, 1, 0, 2]]],
              perm = Some [0, 2, 4, 5, 1, 3], strides = [3, 1] \<rparr>"

definition pipe_N :: LegPipe where
  "pipe_N = \<lparr> ind_len = 12, block_number = 6, chinfo = z3_info, slices = [0, 2, 3, 5, 7, 11, 12],
              charges = [[0], [0], [1], [1], [2], [2]], qconj = - 1, sorted_flag = True,
              bunched = False,
              nlegs = 2, legs = [leg_X, leg_Y], subshape = [3, 4], subqshape = [2, 3],
              q_map = [[0, 2, 0, 0, 0], [0, 1, 1, 1, 1], [0, 2, 0, 1, 2],
                       [0, 2, 1, 2, 3], [0, 4, 0, 2, 4], [0, 1, 1, 0, 5]],
              q_map_slices = [[[0, 2, 0, 0, 0]], [[0, 1, 1, 1, 1]], [[0, 2, 0, 1, 2]],
                              [[0, 2, 1, 2, 3]], [[0, 4, 0, 2, 4]], [[0, 1, 1, 0, 5]]],
              perm = Some [0, 2, 4, 5, 1, 3], strides = [3, 1] \<rparr>"

text \<open>Modelled from the spec: \<^verbatim>\<open>tenpy.tools.misc.lexsort\<close> is not among the sources.
  The specification has \<^verbatim>\<open>sort\<close> perform a "stable lexicographic sort of the block
  rows by charge" and return "the permutation of old block indices": the positions of
  the rows, stably sorted by the lexicographic order of the rows. The general theorems
  hold for every function in its place; this one serves the concrete examples.\<close>

definition lexsort_rows :: "int list list \<Rightarrow> nat list" where
  "lexsort_rows rows = sort_key (\<lambda>i. rows ! i) [0..<length rows]"

section \<open>Notions used in the statements\<close>


text \<open>For the proofs about \<^verbatim>\<open>to_qflat\<close>: a list of blocks \<open>(start, stop, row)\<close> that lie
  inside \<open>[0, n]\<close> and agree wherever two of them overlap; and the shape of a leg whose
  slices are non-decreasing from 0 to \<^verbatim>\<open>ind_len\<close>.\<close>

definition triples_ok :: "nat \<Rightarrow> (int \<times> int \<times> 'a) list \<Rightarrow> bool" where
  "triples_ok n ts \<longleftrightarrow>
     (\<forall>b e v. (b, e, v) \<in> set ts \<longrightarrow> 0 \<le> b \<and> b \<le> e \<and> e \<le> int n) \<and>
     (\<forall>b e v b' e' v' f. (b, e, v) \<in> set ts \<and> (b', e', v') \<in> set ts \<and>
         b \<le> f \<and> f < e \<and> b' \<le> f \<and> f < e' \<longrightarrow> v = v')"

definition leg_shape :: "'a LegCharge_scheme \<Rightarrow> bool" where
  "leg_shape L \<longleftrightarrow> length (slices L) = length (charges L) + 1 \<and> slices L ! 0 = 0 \<and>
     sorted (slices L) \<and> ind_len L = last (slices L)"

text \<open>The part of a mask that lies on block \<open>q\<close> of a leg.\<close>

definition block_mask :: "'a LegCharge_scheme \<Rightarrow> bool list \<Rightarrow> nat \<Rightarrow> bool list" where
  "block_mask L msk q = py_slice msk (slices L ! q) (slices L ! (q + 1))"

text \<open>For the fusion rule of a pipe. The mathematical reduction of a charge row: a
  component with modulus 1 is kept, any other is taken modulo its modulus.\<close>

definition reduce_row :: "int list \<Rightarrow> int list \<Rightarrow> int list" where
  "reduce_row qs v = map2 (\<lambda>q x. if q = 1 then x else x mod q) qs v"

text \<open>Component \<open>k\<close> of the sum, over the incoming legs, of the charge of the leg's block
  in the combination \<open>combo\<close> times the leg's own \<^verbatim>\<open>qconj\<close>.\<close>

definition fusion_sum :: "LegCharge list \<Rightarrow> nat list \<Rightarrow> nat \<Rightarrow> int" where
  "fusion_sum lgs combo k = sum_list (map (\<lambda>(l, q). qconj l * (charges l ! q ! k)) (zip lgs combo))"

text \<open>The columns of a row of \<^verbatim>\<open>q_map\<close> of a pipe of \<open>n\<close> legs: the block indices of the
  combination (columns \<open>2, ..., n+1\<close>) and the index of the fused block (last column).\<close>

definition combo_of :: "nat \<Rightarrow> int list \<Rightarrow> nat list" where
  "combo_of n row = map nat (take n (drop 2 row))"

definition fused_of :: "int list \<Rightarrow> nat" where
  "fused_of row = nat (last row)"

text \<open>For the proofs: a ChargeInfo as the constructor leaves it, with no modulus 0; the
  reduced total charge of a combination; and legs that a pipe can be built from.\<close>

definition chinfo_ok :: "ChargeInfo \<Rightarrow> bool" where
  "chinfo_ok c \<longleftrightarrow> test_sanity_ci c = Inr () \<and> qnumber c = length (mod_ci c) \<and> 0 \<notin> set (mod_ci c)"

definition fused_charge :: "ChargeInfo \<Rightarrow> LegCharge list \<Rightarrow> int \<Rightarrow> nat list \<Rightarrow> int list" where
  "fused_charge ci lgs qc combo =
     reduce_row (mod_ci ci) (map (\<lambda>k. qc * fusion_sum lgs combo k) [0..<qnumber ci])"

definition pipe_input :: "LegCharge list \<Rightarrow> ChargeInfo \<Rightarrow> bool" where
  "pipe_input lgs ci \<longleftrightarrow>
     lgs \<noteq> [] \<and> chinfo_ok ci \<and>
     (\<forall>l\<in>set lgs. test_sanity l = Inr () \<and> block_number l = length (charges l) \<and> chinfo l = ci)"

section \<open>Reduction of charges\<close>

lemma make_valid_entry_ok:
  assumes "q \<noteq> 0"
  shows "\<exists>y. make_valid_entry q x = Inr y"
  using assms by (simp add: make_valid_entry_def Let_def)

lemma c_mod_adjust:
  assumes "1 < q"
  shows "(if c_mod x q < 0 then c_mod x q + q else c_mod x q) = x mod q"
proof (cases "0 \<le> x")
  case True
  from assms have "0 \<le> x mod q" by simp
  with True assms show ?thesis
    by (simp add: c_mod_def sgn_if not_less)
next
  case False
  then have neg: "x < 0" by simp
  show ?thesis
  proof (cases "(- x) mod q = 0")
    case True
    then have "q dvd - x" by (simp add: dvd_eq_mod_eq_0)
    then have "q dvd x" by simp
    then have "x mod q = 0" by (simp add: dvd_eq_mod_eq_0)
    with True neg assms show ?thesis
      by (simp add: c_mod_def sgn_if)
  next
    case nz: False
    from assms have "0 \<le> (- x) mod q" by simp
    with nz have pos: "0 < (- x) mod q" by linarith
    from assms nz have "(- x) mod q = q - x mod q"
      using zmod_zminus1_eq_if [of x q] by (simp split: if_splits)
    then have "x mod q = q - (- x) mod q" by simp
    with neg pos assms show ?thesis
      by (simp add: c_mod_def sgn_if)
  qed
qed

lemma make_valid_entry_mod:
  assumes "1 < q"
  shows "make_valid_entry q x = Inr (x mod q)"
  using assms c_mod_adjust [OF assms, of x] by (simp add: make_valid_entry_def Let_def)

lemma make_valid_entry_one: "make_valid_entry 1 x = Inr x"
  by (simp add: make_valid_entry_def)


lemma make_valid_1D_eq:
  assumes "0 \<notin> set qs" and "\<forall>q\<in>set qs. 0 \<le> q" and "length xs = length qs"
  shows "make_valid_1D qs xs = Inr (map2 (\<lambda>q x. if q = 1 then x else x mod q) qs xs)"
  using assms
proof (induction qs xs rule: list_induct2')
  case (4 q qs x xs)
  then have q: "q = 1 \<or> 1 < q" by auto
  from 4 have IH: "make_valid_1D qs xs = Inr (map2 (\<lambda>q x. if q = 1 then x else x mod q) qs xs)"
    by simp
  from q show ?case
  proof
    assume "q = 1"
    then show ?thesis using IH by (simp add: make_valid_entry_one)
  next
    assume "1 < q"
    then show ?thesis using IH by (simp add: make_valid_entry_mod)
  qed
qed simp_all

lemma map2_reduce_idem:
  assumes "\<forall>q\<in>set qs. (0::int) \<le> q"
  shows "map2 (\<lambda>q x. if q = 1 then x else x mod q) qs (map2 (\<lambda>q x. if q = 1 then x else x mod q) qs xs)
       = map2 (\<lambda>q x. if q = 1 then x else x mod q) qs xs"
  using assms
  by (induction qs xs rule: list_induct2') auto

lemma map_r_Inr:
  assumes "\<forall>x\<in>set xs. f x = Inr (g x)"
  shows "map_r f xs = Inr (map g xs)"
  using assms by (induction xs) auto

lemma ChargeInfo_init_fields:
  assumes "ChargeInfo_init md nms = Inr c"
  shows "mod_ci c = md" and "qnumber c = length md" and "\<forall>q\<in>set md. 0 \<le> q"
  using assms
  by (auto simp: ChargeInfo_init_def bind_r_def Let_def test_sanity_ci_def list_ex_iff
      split: if_splits sum.splits)

text \<open>
  Claim C6. For a ChargeInfo built by the constructor with no modulus 0,
  \<^verbatim>\<open>make_valid\<close> returns on every charge vector and every charge matrix of the right
  width, applying it to its own result returns that result again, a component whose
  modulus is 1 is returned unchanged (whatever its sign), and a component whose modulus
  is \<open>m > 1\<close> is the mathematical remainder modulo \<open>m\<close>, which lies in \<open>[0, m)\<close>.
\<close>

theorem make_valid_idempotent:
  assumes "ChargeInfo_init md nms = Inr c" and "0 \<notin> set md"
    and "length x = qnumber c" and "\<forall>row\<in>set X. length row = qnumber c"
  shows "(\<exists>y. make_valid_vec c x = Inr y \<and> make_valid_vec c y = Inr y \<and> length y = length x \<and>
            (\<forall>j<length x. (md ! j = 1 \<longrightarrow> y ! j = x ! j) \<and>
                           (1 < md ! j \<longrightarrow> y ! j = x ! j mod md ! j \<and> 0 \<le> y ! j \<and> y ! j < md ! j)))
       \<and> (\<exists>Y. make_valid_mat c X = Inr Y \<and> make_valid_mat c Y = Inr Y \<and> length Y = length X \<and>
            (\<forall>i<length X. length (Y ! i) = qnumber c \<and>
               (\<forall>j<qnumber c. (md ! j = 1 \<longrightarrow> Y ! i ! j = X ! i ! j) \<and>
                           (1 < md ! j \<longrightarrow> Y ! i ! j = X ! i ! j mod md ! j \<and> 0 \<le> Y ! i ! j
                                \<and> Y ! i ! j < md ! j))))"
proof -
  let ?r = "\<lambda>q x::int. if q = 1 then x else x mod q"
  let ?red = "\<lambda>v. map2 ?r md v"
  note f = ChargeInfo_init_fields [OF assms(1)]
  have nn: "\<forall>q\<in>set md. 0 \<le> q" by (rule f(3))
  have red: "make_valid_1D md v = Inr (?red v)" if "length v = length md" for v
    using make_valid_1D_eq [OF assms(2) nn that] .
  have idem: "?red (?red v) = ?red v" for v
    by (rule map2_reduce_idem [OF nn])
  have entry: "(md ! j = 1 \<longrightarrow> ?red v ! j = v ! j) \<and>
               (1 < md ! j \<longrightarrow> ?red v ! j = v ! j mod md ! j \<and> 0 \<le> ?red v ! j \<and> ?red v ! j < md ! j)"
    if "length v = length md" "j < length md" for v j
    using that by simp
  have vec: "make_valid_vec c v = Inr (?red v)" if "length v = length md" for v
    using that red [OF that] f by (simp add: make_valid_vec_def)
  have part1: "\<exists>y. make_valid_vec c x = Inr y \<and> make_valid_vec c y = Inr y \<and> length y = length x \<and>
            (\<forall>j<length x. (md ! j = 1 \<longrightarrow> y ! j = x ! j) \<and>
                           (1 < md ! j \<longrightarrow> y ! j = x ! j mod md ! j \<and> 0 \<le> y ! j \<and> y ! j < md ! j))"
  proof (intro exI conjI)
    from assms(3) f have lx: "length x = length md" by simp
    show "make_valid_vec c x = Inr (?red x)" by (rule vec [OF lx])
    have "make_valid_vec c (?red x) = Inr (?red (?red x))" using lx by (intro vec) simp
    then show "make_valid_vec c (?red x) = Inr (?red x)" by (simp only: idem)
    show "length (?red x) = length x" using lx by simp
    show "\<forall>j<length x. (md ! j = 1 \<longrightarrow> ?red x ! j = x ! j) \<and>
           (1 < md ! j \<longrightarrow> ?red x ! j = x ! j mod md ! j \<and> 0 \<le> ?red x ! j \<and> ?red x ! j < md ! j)"
      using entry [OF lx] lx by simp
  qed
  have mat: "make_valid_mat c V = Inr (map ?red V)" if "\<forall>row\<in>set V. length row = length md" for V
  proof -
    have "map_r (make_valid_1D md) V = Inr (map ?red V)"
      by (rule map_r_Inr) (use that red in blast)
    with that f show ?thesis by (simp add: make_valid_mat_def make_valid_2D_def list_ex_iff)
  qed
  have part2: "\<exists>Y. make_valid_mat c X = Inr Y \<and> make_valid_mat c Y = Inr Y \<and> length Y = length X \<and>
            (\<forall>i<length X. length (Y ! i) = qnumber c \<and>
               (\<forall>j<qnumber c. (md ! j = 1 \<longrightarrow> Y ! i ! j = X ! i ! j) \<and>
                           (1 < md ! j \<longrightarrow> Y ! i ! j = X ! i ! j mod md ! j \<and> 0 \<le> Y ! i ! j
                                \<and> Y ! i ! j < md ! j)))"
  proof (intro exI conjI)
    from assms(4) f have lX: "\<forall>row\<in>set X. length row = length md" by simp
    show "make_valid_mat c X = Inr (map ?red X)" by (rule mat [OF lX])
    have "make_valid_mat c (map ?red X) = Inr (map ?red (map ?red X))"
      using lX by (intro mat) simp
    moreover have "map ?red (map ?red X) = map ?red X"
      unfolding map_map comp_def by (simp only: idem)
    ultimately show "make_valid_mat c (map ?red X) = Inr (map ?red X)" by simp
    show "length (map ?red X) = length X" by simp
    show "\<forall>i<length X. length (map ?red X ! i) = qnumber c \<and>
               (\<forall>j<qnumber c. (md ! j = 1 \<longrightarrow> map ?red X ! i ! j = X ! i ! j) \<and>
                           (1 < md ! j \<longrightarrow> map ?red X ! i ! j = X ! i ! j mod md ! j \<and> 0 \<le> map ?red X ! i ! j
                                \<and> map ?red X ! i ! j < md ! j))"
    proof (intro allI impI)
      fix i assume i: "i < length X"
      then have li: "length (X ! i) = length md" using lX by simp
      show "length (map ?red X ! i) = qnumber c \<and>
               (\<forall>j<qnumber c. (md ! j = 1 \<longrightarrow> map ?red X ! i ! j = X ! i ! j) \<and>
                           (1 < md ! j \<longrightarrow> map ?red X ! i ! j = X ! i ! j mod md ! j \<and> 0 \<le> map ?red X ! i ! j
                                \<and> map ?red X ! i ! j < md ! j))"
        using entry [OF li] li i f by simp
    qed
  qed
  from part1 part2 show ?thesis by (rule conjI)
qed


theorem make_valid_idempotent_witness:
  "ChargeInfo_init [3, 1] None = Inr \<lparr> qnumber = 2, mod_ci = [3, 1], names = [[], []] \<rparr> \<and>
   (\<exists>y. make_valid_vec \<lparr> qnumber = 2, mod_ci = [3, 1], names = [[], []] \<rparr> [- 4, - 7] = Inr y \<and>
        make_valid_vec \<lparr> qnumber = 2, mod_ci = [3, 1], names = [[], []] \<rparr> y = Inr y \<and>
        y = [2, - 7]) \<and>
   (\<exists>Y. make_valid_mat \<lparr> qnumber = 2, mod_ci = [3, 1], names = [[], []] \<rparr> [[5, - 1], [- 1, 9]] = Inr Y \<and>
        make_valid_mat \<lparr> qnumber = 2, mod_ci = [3, 1], names = [[], []] \<rparr> Y = Inr Y \<and>
        Y = [[2, - 1], [2, 9]])"
proof -
  let ?c = "\<lparr> qnumber = 2, mod_ci = [3, 1], names = [[], []] \<rparr>"
  have i: "ChargeInfo_init [3, 1] None = Inr ?c"
    by (simp add: ChargeInfo_init_def bind_r_def test_sanity_ci_def numeral_2_eq_2)
  have z: "(0::int) \<notin> set [3, 1]" by simp
  have l: "length [- 4, - 7 :: int] = qnumber ?c" by simp
  have m: "\<forall>row\<in>set [[5, - 1], [- 1, 9 :: int]]. length row = qnumber ?c" by simp
  have v: "make_valid_vec ?c [- 4, - 7] = Inr [2, - 7]"
    by (simp add: make_valid_vec_def make_valid_entry_def c_mod_def)
  have w: "make_valid_mat ?c [[5, - 1], [- 1, 9]] = Inr [[2, - 1], [2, 9]]"
    by (simp add: make_valid_mat_def make_valid_2D_def make_valid_entry_def c_mod_def)
  from make_valid_idempotent [OF i z l m]
  obtain y Y where y: "make_valid_vec ?c [- 4, - 7] = Inr y" "make_valid_vec ?c y = Inr y"
    and Y: "make_valid_mat ?c [[5, - 1], [- 1, 9]] = Inr Y" "make_valid_mat ?c Y = Inr Y"
    by blast
  from y v have "y = [2, - 7]" by simp
  moreover from Y w have "Y = [[2, - 1], [2, 9]]" by simp
  ultimately show ?thesis using i y Y by blast
qed

section \<open>Flat indices and blocks\<close>

lemma bisect_loop_bounds:
  assumes "lo \<le> hi" and "hi \<le> length a"
    and "lo = 0 \<or> a ! (lo - 1) \<le> x" and "hi = length a \<or> x < a ! hi"
  shows "lo \<le> bisect_loop a x lo hi \<and> bisect_loop a x lo hi \<le> hi \<and>
         (bisect_loop a x lo hi = 0 \<or> a ! (bisect_loop a x lo hi - 1) \<le> x) \<and>
         (bisect_loop a x lo hi = length a \<or> x < a ! bisect_loop a x lo hi)"
  using assms
proof (induction a x lo hi rule: bisect_loop.induct)
  case (1 a x lo hi)
  show ?case
  proof (cases "lo < hi")
    case False
    with "1.prems" have "lo = hi" by simp
    with "1.prems" show ?thesis by (simp add: bisect_loop.simps [of a x hi hi])
  next
    case True
    let ?mid = "(lo + hi) div 2"
    from True have mid: "lo \<le> ?mid" "?mid < hi" by auto
    show ?thesis
    proof (cases "x < a ! ?mid")
      case left: True
      have eq: "bisect_loop a x lo hi = bisect_loop a x lo ?mid"
        using True left by (subst bisect_loop.simps) simp
      have "lo \<le> bisect_loop a x lo ?mid \<and> bisect_loop a x lo ?mid \<le> ?mid \<and>
         (bisect_loop a x lo ?mid = 0 \<or> a ! (bisect_loop a x lo ?mid - 1) \<le> x) \<and>
         (bisect_loop a x lo ?mid = length a \<or> x < a ! bisect_loop a x lo ?mid)"
        by (rule "1.IH"(1) [OF True left]) (use mid "1.prems" left in auto)
      with eq mid show ?thesis by auto
    next
      case right: False
      have eq: "bisect_loop a x lo hi = bisect_loop a x (?mid + 1) hi"
        using True right by (subst bisect_loop.simps) simp
      have "?mid + 1 \<le> bisect_loop a x (?mid + 1) hi \<and> bisect_loop a x (?mid + 1) hi \<le> hi \<and>
         (bisect_loop a x (?mid + 1) hi = 0 \<or> a ! (bisect_loop a x (?mid + 1) hi - 1) \<le> x) \<and>
         (bisect_loop a x (?mid + 1) hi = length a \<or> x < a ! bisect_loop a x (?mid + 1) hi)"
        by (rule "1.IH"(2) [OF True right]) (use mid "1.prems" right in auto)
      with eq mid show ?thesis by auto
    qed
  qed
qed

lemma bisect_bounds:
  "bisect a x \<le> length a \<and> (bisect a x = 0 \<or> a ! (bisect a x - 1) \<le> x) \<and>
   (bisect a x = length a \<or> x < a ! bisect a x)"
  using bisect_loop_bounds [of 0 "length a" a x] by (simp add: bisect_def)

lemma sum_block_sizes:
  assumes "xs \<noteq> []"
  shows "sum_list (map2 (\<lambda>stop start. stop - start) (tl xs) (butlast xs)) = last xs - hd (xs :: int list)"
  using assms
proof (induction xs rule: list_nonempty_induct)
  case (single x)
  show ?case by simp
next
  case (cons x xs)
  then obtain y ys where xs: "xs = y # ys" by (cases xs) auto
  with cons show ?case by simp
qed

lemma test_sanity_slices:
  assumes "test_sanity L = Inr ()"
  shows "length (slices L) = block_number L + 1" and "slices L ! 0 = 0"
  using assms by (auto simp: test_sanity_def split: if_splits)

lemma find_qindex_in_block:
  assumes san: "test_sanity L = Inr ()" and len: "ind_len L = last (slices L)"
    and f: "0 \<le> f" "f < ind_len L"
  shows "\<exists>q off. find_qindex L f = Inr (int q, off) \<and> q < block_number L \<and>
           slices L ! q + off = f \<and> 0 \<le> off \<and> off < slices L ! (q + 1) - slices L ! q"
proof -
  let ?a = "slices L" and ?p = "bisect (slices L) f"
  note s = test_sanity_slices [OF san]
  from s have ne: "?a \<noteq> []" by auto
  have b: "?p \<le> length ?a" "?p = 0 \<or> ?a ! (?p - 1) \<le> f" "?p = length ?a \<or> f < ?a ! ?p"
    using bisect_bounds [of ?a f] by simp_all
  have p0: "?p \<noteq> 0"
  proof
    assume z: "?p = 0"
    with b(3) s have "f < ?a ! 0" by auto
    with s f show False by simp
  qed
  have pl: "?p \<noteq> length ?a"
  proof
    assume e: "?p = length ?a"
    with b(2) p0 have "?a ! (length ?a - 1) \<le> f" by simp
    with ne have "last ?a \<le> f" by (simp add: last_conv_nth)
    with f len show False by simp
  qed
  from p0 pl b have lo: "?a ! (?p - 1) \<le> f" and hi: "f < ?a ! ?p" and plt: "?p < length ?a"
    by auto
  have g: "py_get ?a (int ?p - 1) = Inr (?a ! (?p - 1))"
    using p0 plt by (simp add: py_get_def Let_def nat_diff_distrib')
  have "find_qindex L f = Inr (int (?p - 1), f - ?a ! (?p - 1))"
    using g p0 by (simp add: find_qindex_def Let_def bind_r_def of_nat_diff)
  moreover have "?p - 1 < block_number L" using plt p0 s by simp
  moreover have "?a ! (?p - 1) + (f - ?a ! (?p - 1)) = f" by simp
  moreover have "0 \<le> f - ?a ! (?p - 1)" using lo by simp
  moreover have "f - ?a ! (?p - 1) < ?a ! (?p - 1 + 1) - ?a ! (?p - 1)" using hi p0 by simp
  ultimately show ?thesis by blast
qed

lemma sorted_block_unique:
  assumes "sorted (a :: int list)" and "q + 1 < length a" and "q' + 1 < length a"
    and "a ! q \<le> f" "f < a ! (q + 1)" and "a ! q' \<le> f" "f < a ! (q' + 1)"
  shows "q = q'"
proof (rule ccontr)
  assume "q \<noteq> q'"
  then consider "q + 1 \<le> q'" | "q' + 1 \<le> q" by linarith
  then show False
  proof cases
    case 1
    with assms have "a ! (q + 1) \<le> a ! q'" by (intro sorted_nth_mono) auto
    with assms show False by simp
  next
    case 2
    with assms have "a ! (q' + 1) \<le> a ! q" by (intro sorted_nth_mono) auto
    with assms show False by simp
  qed
qed

text \<open>
  Claim C9. For a leg that passes \<^verbatim>\<open>test_sanity\<close> and whose \<^verbatim>\<open>ind_len\<close> is the last
  entry of \<^verbatim>\<open>slices\<close> (as the constructor and \<^verbatim>\<open>_set_slices\<close> set it), the block
  sizes sum to \<^verbatim>\<open>ind_len\<close>, and for every flat index \<open>f\<close> with \<open>0 \<le> f < ind_len\<close>
  \<^verbatim>\<open>get_qindex\<close> returns a block \<open>q\<close> and an offset \<open>off\<close> with
  \<open>slices[q] + off = f\<close> and \<open>0 \<le> off < slices[q+1] - slices[q]\<close>. When the slices are
  non-decreasing, \<^verbatim>\<open>get_qindex\<close> also returns \<open>(q, off)\<close> at the flat index rebuilt
  from any block \<open>q\<close> and offset \<open>off\<close> inside it.
\<close>

theorem get_qindex_inverse:
  assumes san: "test_sanity L = Inr ()" and len: "ind_len L = last (slices L)"
  shows "sum_list (get_block_sizes L) = ind_len L \<and>
         (\<forall>f. 0 \<le> f \<and> f < ind_len L \<longrightarrow>
            (\<exists>q off. get_qindex L f = Inr (int q, off) \<and> q < block_number L \<and>
               slices L ! q + off = f \<and> 0 \<le> off \<and> off < slices L ! (q + 1) - slices L ! q)) \<and>
         (sorted (slices L) \<longrightarrow>
            (\<forall>q off. q < block_number L \<and> 0 \<le> off \<and> off < slices L ! (q + 1) - slices L ! q \<longrightarrow>
               get_qindex L (slices L ! q + off) = Inr (int q, off)))"
proof (intro conjI allI impI)
  note s = test_sanity_slices [OF san]
  from s have ne: "slices L \<noteq> []" by auto
  show "sum_list (get_block_sizes L) = ind_len L"
    using sum_block_sizes [OF ne] s ne len by (simp add: get_block_sizes_def hd_conv_nth)
  have fwd: "\<exists>q off. get_qindex L f = Inr (int q, off) \<and> q < block_number L \<and>
               slices L ! q + off = f \<and> 0 \<le> off \<and> off < slices L ! (q + 1) - slices L ! q"
    if "0 \<le> f \<and> f < ind_len L" for f
    using find_qindex_in_block [OF san len, of f] that by (simp add: get_qindex_def)
  show "\<exists>q off. get_qindex L f = Inr (int q, off) \<and> q < block_number L \<and>
               slices L ! q + off = f \<and> 0 \<le> off \<and> off < slices L ! (q + 1) - slices L ! q"
    if "0 \<le> f \<and> f < ind_len L" for f
    by (rule fwd [OF that])
  show "get_qindex L (slices L ! q + off) = Inr (int q, off)"
    if srt: "sorted (slices L)"
      and qo: "q < block_number L \<and> 0 \<le> off \<and> off < slices L ! (q + 1) - slices L ! q" for q off
  proof -
    let ?f = "slices L ! q + off"
    have "slices L ! 0 \<le> slices L ! q" using srt qo s by (intro sorted_nth_mono) auto
    with s qo have f0: "0 \<le> ?f" by simp
    have "slices L ! (q + 1) \<le> slices L ! (length (slices L) - 1)"
      using srt qo s by (intro sorted_nth_mono) auto
    with ne len have "slices L ! (q + 1) \<le> ind_len L" by (simp add: last_conv_nth)
    with qo have f1: "?f < ind_len L" by simp
    from fwd [of ?f] f0 f1 obtain q' off' where
      r: "get_qindex L ?f = Inr (int q', off')" "q' < block_number L"
         "slices L ! q' + off' = ?f" "0 \<le> off'" "off' < slices L ! (q' + 1) - slices L ! q'"
      by blast
    have "q = q'"
      using srt qo r s by (intro sorted_block_unique [of "slices L" q q' ?f]) auto
    with r show ?thesis by simp
  qed
qed

lemma leg_A_sane: "test_sanity leg_A = Inr ()"
  by (simp add: test_sanity_def leg_A_def parity_info_def check_valid_def check_valid_row_def)

theorem get_qindex_inverse_witness:
  "test_sanity leg_A = Inr () \<and> ind_len leg_A = last (slices leg_A) \<and> sorted (slices leg_A) \<and>
   sum_list (get_block_sizes leg_A) = 6 \<and>
   (\<exists>q off. get_qindex leg_A 4 = Inr (int q, off) \<and> slices leg_A ! q + off = 4 \<and> q = 2 \<and> off = 1) \<and>
   get_qindex leg_A (slices leg_A ! 1 + 0) = Inr (1, 0)"
proof -
  have san: "test_sanity leg_A = Inr ()" by (rule leg_A_sane)
  have len: "ind_len leg_A = last (slices leg_A)" by (simp add: leg_A_def)
  have srt: "sorted (slices leg_A)" by (simp add: leg_A_def)
  note t = get_qindex_inverse [OF san len]
  from t have s: "sum_list (get_block_sizes leg_A) = 6" by (simp add: leg_A_def)
  from t have "\<exists>q off. get_qindex leg_A 4 = Inr (int q, off) \<and> q < block_number leg_A \<and>
      slices leg_A ! q + off = 4 \<and> 0 \<le> off \<and> off < slices leg_A ! (q + 1) - slices leg_A ! q"
    by (simp add: leg_A_def)
  then obtain q off where r: "get_qindex leg_A 4 = Inr (int q, off)" "q < block_number leg_A"
      "slices leg_A ! q + off = 4" "0 \<le> off" "off < slices leg_A ! (q + 1) - slices leg_A ! q"
    by blast
  from r(2) have "q = 0 \<or> q = 1 \<or> q = 2" by (auto simp: leg_A_def)
  with r(3,4,5) have "q = 2 \<and> off = 1" by (auto simp: leg_A_def)
  with r have e: "\<exists>q off. get_qindex leg_A 4 = Inr (int q, off) \<and> slices leg_A ! q + off = 4 \<and> q = 2 \<and> off = 1"
    by blast
  from t srt have "\<forall>q off. q < block_number leg_A \<and> 0 \<le> off \<and>
        off < slices leg_A ! (q + 1) - slices leg_A ! q \<longrightarrow>
        get_qindex leg_A (slices leg_A ! q + off) = Inr (int q, off)"
    by blast
  then have "1 < block_number leg_A \<and> (0::int) \<le> 0 \<and>
        0 < slices leg_A ! (1 + 1) - slices leg_A ! 1 \<longrightarrow>
        get_qindex leg_A (slices leg_A ! 1 + 0) = Inr (int 1, 0)"
    by blast
  then have "get_qindex leg_A (slices leg_A ! 1 + 0) = Inr (1, 0)"
    by (simp add: leg_A_def)
  with san len srt s e show ?thesis by simp
qed

lemma find_qindex_ok:
  assumes san: "test_sanity L = Inr ()" and f: "0 \<le> f"
  shows "\<exists>r. find_qindex L f = Inr r"
proof -
  let ?a = "slices L" and ?p = "bisect (slices L) f"
  note s = test_sanity_slices [OF san]
  have b: "?p \<le> length ?a" "?p = length ?a \<or> f < ?a ! ?p"
    using bisect_bounds [of ?a f] by simp_all
  have p0: "?p \<noteq> 0"
  proof
    assume z: "?p = 0"
    with b(2) s have "f < ?a ! 0" by auto
    with s f show False by simp
  qed
  with b(1) have "py_get ?a (int ?p - 1) = Inr (?a ! (?p - 1))"
    by (simp add: py_get_def Let_def nat_diff_distrib')
  then show ?thesis by (simp add: find_qindex_def Let_def bind_r_def)
qed

lemma get_qindex_raises_iff:
  assumes san: "test_sanity L = Inr ()"
  shows "(\<exists>e. get_qindex L f = Inl e) \<longleftrightarrow> f < - ind_len L \<or> (0 \<le> f \<and> ind_len L < f)"
proof (cases "f < 0")
  case True
  show ?thesis
  proof (cases "f + ind_len L < 0")
    case neg: True
    with True show ?thesis by (auto simp: get_qindex_def)
  next
    case False
    then have "0 \<le> f + ind_len L" by simp
    from find_qindex_ok [OF san this] obtain r where "find_qindex L (f + ind_len L) = Inr r" ..
    with True False show ?thesis by (auto simp: get_qindex_def)
  qed
next
  case False
  then have f0: "0 \<le> f" by simp
  show ?thesis
  proof (cases "ind_len L < f")
    case True
    with False show ?thesis by (auto simp: get_qindex_def)
  next
    case le: False
    from find_qindex_ok [OF san f0] obtain r where "find_qindex L f = Inr r" ..
    with False le f0 show ?thesis by (auto simp: get_qindex_def)
  qed
qed

text \<open>
  Claim C2. The claim has \<^verbatim>\<open>get_qindex\<close> raise exactly outside \<open>[-ind_len, ind_len)\<close>.
  The upper test of the source is \<^verbatim>\<open>flat_index > self.ind_len\<close>: at
  \<open>flat_index = ind_len\<close> nothing is raised. For the scenario's leg (\<open>ind_len = 6\<close>,
  three blocks) the call \<^verbatim>\<open>get_qindex(6)\<close> returns \<open>(3, 0)\<close>, a block that the leg
  does not have, while 7 and -7 raise.
\<close>

theorem get_qindex_at_ind_len:
  "LegCharge_init parity_info [0, 2, 3, 6] [[0], [1], [0]] 1 = Inr (leg_A\<lparr> bunched := False \<rparr>) \<and>
   ind_len leg_A = 6 \<and> block_number leg_A = 3 \<and>
   get_qindex (leg_A\<lparr> bunched := False \<rparr>) 6 = Inr (3, 0) \<and> get_qindex leg_A 6 = Inr (3, 0) \<and>
   get_qindex leg_A 7 = Inl IndexError \<and> get_qindex leg_A (- 7) = Inl IndexError"
  by code_simp

section \<open>Compatibility of legs\<close>

lemma ChargeInfo_equal_cases:
  "ChargeInfo_equal is_other a b =
     (if is_other then Inr True
      else if np_all_equal (mod_ci a) (mod_ci b) then Inl AttributeError
      else Inr False)"
  by (simp add: ChargeInfo_equal_def getattr_private_def bind_r_def)

lemma np_all_equal_refl: "np_all_equal a a"
  by (simp add: np_all_equal_def)

text \<open>
  When the two legs hold one ChargeInfo object, \<^verbatim>\<open>test_contractible\<close> succeeds exactly
  when the slices are equal and
  \<open>self.charges * self.qconj = - (other.charges * other.qconj)\<close>, whatever the identity
  tests of the fast path return (identical storage holding identical values); and a
  leg is contractible with its own conjugate, which shares the ChargeInfo with it.
  When they hold two ChargeInfo objects, it never succeeds: it raises
  \<^verbatim>\<open>AttributeError\<close> when the two \<^verbatim>\<open>mod\<close> compare equal and \<^verbatim>\<open>ValueError\<close> when they do
  not.
\<close>

lemma test_contractible_succeeds_iff:
  assumes "charges_is \<longrightarrow> charges self = charges other"
    and "slices_is \<longrightarrow> slices self = slices other"
  shows "test_contractible chinfo_is charges_is slices_is self other = Inr () \<longleftrightarrow>
           chinfo_is \<and> slices self = slices other \<and>
           map (map (\<lambda>c. c * qconj self)) (charges self) =
           map (map (\<lambda>c. - (c * qconj other))) (charges other)"
proof -
  have neg: "(\<lambda>c. c * - q) = (\<lambda>c. - (c * q))" for q :: int by auto
  show ?thesis
    using assms
    by (auto simp: test_contractible_def test_equal_def conj_leg_def neg
        ChargeInfo_equal_cases bind_r_def)
qed

lemma test_contractible_two_chinfo:
  "test_contractible False charges_is slices_is self other =
     (if np_all_equal (mod_ci (chinfo self)) (mod_ci (chinfo other)) then Inl AttributeError
      else Inl ValueError)"
  by (simp add: test_contractible_def test_equal_def conj_leg_def ChargeInfo_equal_cases
      bind_r_def)

lemma test_contractible_conj:
  "test_contractible True charges_is slices_is self (conj_leg self) = Inr ()"
  by (simp add: test_contractible_def test_equal_def conj_leg_def ChargeInfo_equal_cases
      bind_r_def)

text \<open>
  Claim C7. Two legs built on two ChargeInfo objects with the same \<^verbatim>\<open>mod\<close> and the
  same \<^verbatim>\<open>names\<close>, with the same slices and opposite effective charges, meet the three
  conditions of the claim, and \<^verbatim>\<open>test_contractible\<close> raises \<^verbatim>\<open>AttributeError\<close> on
  them: \<^verbatim>\<open>_equal\<close> reads \<^verbatim>\<open>other.names\<close>, a \<^verbatim>\<open>cdef\<close> attribute with no visibility,
  through an untyped reference. On the same two legs built on one ChargeInfo object
  it succeeds.
\<close>

theorem test_contractible_distinct_chinfo:
  "ChargeInfo_init [2] (Some [''parity'']) = Inr parity_info \<and>
   from_qind lexsort_rows parity_info [0, 2, 3, 6] [[0], [1], [0]] 1 = Inr leg_A \<and>
   from_qind lexsort_rows parity_info [0, 2, 3, 6] [[0], [1], [0]] (- 1) = Inr leg_B \<and>
   mod_ci (chinfo leg_A) = mod_ci (chinfo leg_B) \<and>
   names (chinfo leg_A) = names (chinfo leg_B) \<and>
   slices leg_A = slices leg_B \<and>
   map (map (\<lambda>c. c * qconj leg_A)) (charges leg_A) =
     map (map (\<lambda>c. - (c * qconj leg_B))) (charges leg_B) \<and>
   test_contractible False False False leg_A leg_B = Inl AttributeError \<and>
   test_contractible True False False leg_A leg_B = Inr ()"
  by code_simp

section \<open>Sorting and bunching\<close>







section \<open>Bunching keeps the flat charges\<close>

lemma block_exists:
  fixes a :: "'a::linorder list"
  assumes "a \<noteq> []" and "a ! 0 \<le> f" and "f < last a"
  shows "\<exists>q. q + 1 < length a \<and> a ! q \<le> f \<and> f < a ! (q + 1)"
proof (rule ccontr)
  assume no: "\<not> (\<exists>q. q + 1 < length a \<and> a ! q \<le> f \<and> f < a ! (q + 1))"
  have below: "k < length a \<Longrightarrow> a ! k \<le> f" for k
  proof (induction k)
    case 0
    from assms(2) show ?case .
  next
    case (Suc k)
    then have "a ! k \<le> f" by simp
    with no Suc.prems have "\<not> f < a ! (k + 1)" by auto
    then show ?case by simp
  qed
  from assms(1) have "last a = a ! (length a - 1)" by (rule last_conv_nth)
  with below [of "length a - 1"] assms(1) have "last a \<le> f" by simp
  with assms(3) show False by simp
qed

lemma strict_between_notin:
  fixes xs :: "nat list"
  assumes "sorted_wrt (<) xs" and "k + 1 < length xs" and "xs ! k < j" and "j < xs ! (k + 1)"
  shows "j \<notin> set xs"
proof
  assume "j \<in> set xs"
  then obtain m where m: "m < length xs" "xs ! m = j" by (auto simp: in_set_conv_nth)
  have "k < m"
  proof (rule ccontr)
    assume "\<not> k < m"
    then have "m = k \<or> m < k" by auto
    then show False
    proof
      assume "m = k" with m assms(3) show False by simp
    next
      assume "m < k"
      with assms(1,2) have "xs ! m < xs ! k" by (intro sorted_wrt_nth_less) auto
      with m assms(3) show False by simp
    qed
  qed
  moreover have "m < k + 1"
  proof (rule ccontr)
    assume "\<not> m < k + 1"
    then have "m = k + 1 \<or> k + 1 < m" by auto
    then show False
    proof
      assume "m = k + 1" with m assms(4) show False by simp
    next
      assume "k + 1 < m"
      with assms(1) m have "xs ! (k + 1) < xs ! m" by (intro sorted_wrt_nth_less) auto
      with m assms(4) show False by simp
    qed
  qed
  ultimately show False by simp
qed

lemma take_idx_ok:
  assumes "\<forall>i\<in>set idx. i < length xs"
  shows "take_idx xs idx = Inr (map ((!) xs) idx)"
  unfolding take_idx_def by (rule map_r_Inr) (use assms in auto)

lemma row_diffs_props:
  fixes rows :: "int list list"
  defines "B \<equiv> length rows"
  defines "idx \<equiv> 0 # filter (\<lambda>i. rows ! (i - 1) \<noteq> rows ! i) [1..<B] @ [B]"
  assumes B: "0 < B"
  shows "sorted_wrt (<) idx" and "idx ! 0 = 0" and "last idx = B" and "\<forall>i\<in>set idx. i \<le> B"
    and "\<forall>i\<in>set (butlast idx). i < B" and "length idx \<le> B + 1" and "2 \<le> length idx"
    and "\<And>k q. k + 1 < length idx \<Longrightarrow> idx ! k \<le> q \<Longrightarrow> q < idx ! (k + 1) \<Longrightarrow> rows ! q = rows ! (idx ! k)"
proof -
  let ?P = "\<lambda>i. rows ! (i - 1) \<noteq> rows ! i"
  let ?m = "filter ?P [1..<B]"
  have mid: "1 \<le> i \<and> i < B" if "i \<in> set ?m" for i using that by simp
  have sm: "sorted_wrt (<) ?m" by (rule sorted_wrt_filter) (rule sorted_wrt_upt)
  have cross: "\<forall>x\<in>set ?m. \<forall>y\<in>set [B]. x < y"
  proof (intro ballI)
    fix x y assume "x \<in> set ?m" "y \<in> set [B]"
    with mid [of x] show "x < y" by simp
  qed
  have one: "sorted_wrt (<) [B]" by simp
  have smB: "sorted_wrt (<) (?m @ [B])"
    by (rule iffD2 [OF sorted_wrt_append]) (intro conjI sm one cross)
  have pos: "\<forall>x\<in>set (?m @ [B]). 0 < x"
  proof
    fix x assume "x \<in> set (?m @ [B])"
    then have "x \<in> set ?m \<or> x = B" by (auto simp del: set_filter)
    then show "0 < x" using mid [of x] B by (auto simp del: set_filter)
  qed
  have "sorted_wrt (<) (0 # (?m @ [B]))"
    by (rule iffD2 [OF sorted_wrt.simps(2)]) (intro conjI pos smB)
  then show s: "sorted_wrt (<) idx" by (simp only: idx_def)
  show "idx ! 0 = 0" by (simp add: idx_def)
  show "last idx = B" by (simp add: idx_def)
  have memidx: "i = 0 \<or> i \<in> set ?m \<or> i = B" if "i \<in> set idx" for i
    using that unfolding idx_def by (auto simp del: set_filter)
  show "\<forall>i\<in>set idx. i \<le> B"
  proof
    fix i assume "i \<in> set idx"
    from memidx [OF this] mid [of i] show "i \<le> B" by (auto simp del: set_filter)
  qed
  have bl: "butlast idx = 0 # ?m" by (simp add: idx_def butlast_append)
  show "\<forall>i\<in>set (butlast idx). i < B"
  proof
    fix i assume "i \<in> set (butlast idx)"
    then have "i = 0 \<or> i \<in> set ?m" unfolding bl by (auto simp del: set_filter)
    with mid [of i] B show "i < B" by (auto simp del: set_filter)
  qed
  have "length ?m \<le> length [1..<B]" by (rule length_filter_le)
  then show "length idx \<le> B + 1" using B by (simp add: idx_def)
  show "2 \<le> length idx" by (simp add: idx_def)
  show "rows ! q = rows ! (idx ! k)"
    if k: "k + 1 < length idx" and lo: "idx ! k \<le> q" and hi: "q < idx ! (k + 1)" for k q
    using lo hi
  proof (induction q)
    case 0
    then show ?case by simp
  next
    case (Suc q)
    show ?case
    proof (cases "idx ! k = Suc q")
      case True
      then show ?thesis by simp
    next
      case False
      with Suc.prems have lt: "idx ! k < Suc q" by simp
      then have ih: "rows ! q = rows ! (idx ! k)" using Suc by simp
      have "Suc q \<notin> set idx"
        by (rule strict_between_notin [OF s k lt]) (use Suc.prems in simp)
      then have nm: "Suc q \<notin> set ?m" by (simp add: idx_def)
      have "idx ! (k + 1) \<in> set idx" using k by (intro nth_mem) simp
      from memidx [OF this] mid [of "idx ! (k + 1)"] have "idx ! (k + 1) \<le> B"
        by (auto simp del: set_filter)
      with Suc.prems have "Suc q < B" by simp
      with nm have "rows ! (Suc q - 1) = rows ! Suc q" by auto
      with ih show ?thesis by simp
    qed
  qed
qed

lemma c_find_row_differences_eq:
  assumes "0 < length rows" and "\<forall>row\<in>set rows. length row = M"
  shows "c_find_row_differences M rows =
           Inr (0 # filter (\<lambda>i. rows ! (i - 1) \<noteq> rows ! i) [1..<length rows] @ [length rows])"
proof (cases "M = 0")
  case False
  with assms show ?thesis by (simp add: c_find_row_differences_def Let_def)
next
  case True
  with assms(2) have "\<forall>row\<in>set rows. row = []" by simp
  then have "\<forall>i<length rows. rows ! i = []" by simp
  then have "filter (\<lambda>i. rows ! (i - 1) \<noteq> rows ! i) [1..<length rows] = []"
    by (auto simp: filter_empty_conv)
  with True show ?thesis by (simp add: c_find_row_differences_def Let_def)
qed

lemma assign_slice_nth:
  assumes "0 \<le> b" and "b \<le> e" and "e \<le> int (length xs)"
  shows "length (assign_slice xs b e v) = length xs"
    and "f < length xs \<Longrightarrow>
         assign_slice xs b e v ! f = (if b \<le> int f \<and> int f < e then Some v else xs ! f)"
proof -
  from assms have lo: "py_bound (length xs) b = nat b" and hi: "py_bound (length xs) e = nat e"
    by (auto simp: py_bound_def)
  from assms have le: "nat b \<le> nat e" "nat e \<le> length xs" by auto
  have eq: "assign_slice xs b e v =
      take (nat b) xs @ replicate (nat e - nat b) (Some v) @ drop (nat e) xs"
    using le by (simp add: assign_slice_def lo hi Let_def max_def)
  show "length (assign_slice xs b e v) = length xs" using le by (simp add: eq)
  show "assign_slice xs b e v ! f = (if b \<le> int f \<and> int f < e then Some v else xs ! f)"
    if "f < length xs"
  proof -
    consider "f < nat b" | "nat b \<le> f" "f < nat e" | "nat e \<le> f" by linarith
    then show ?thesis
    proof cases
      case 1
      with le assms show ?thesis by (auto simp: eq nth_append)
    next
      case 2
      with le assms show ?thesis by (auto simp: eq nth_append)
    next
      case 3
      with le assms that show ?thesis by (auto simp: eq nth_append)
    qed
  qed
qed

lemma triples_okD:
  assumes "triples_ok n ts"
  shows "(b, e, v) \<in> set ts \<Longrightarrow> 0 \<le> b \<and> b \<le> e \<and> e \<le> int n"
    and "(b, e, v) \<in> set ts \<Longrightarrow> (b', e', v') \<in> set ts \<Longrightarrow>
         b \<le> f \<Longrightarrow> f < e \<Longrightarrow> b' \<le> f \<Longrightarrow> f < e' \<Longrightarrow> v = v'"
  using assms unfolding triples_ok_def by blast+

lemma triples_ok_butlast:
  assumes "triples_ok n (ts @ [t])"
  shows "triples_ok n ts"
  unfolding triples_ok_def
proof (rule conjI; intro allI impI)
  fix b e v assume "(b, e, v) \<in> set ts"
  then have "(b, e, v) \<in> set (ts @ [t])" by simp
  from triples_okD(1) [OF assms this] show "0 \<le> b \<and> b \<le> e \<and> e \<le> int n" .
next
  fix b e v b' e' v' f
  assume a: "(b, e, v) \<in> set ts \<and> (b', e', v') \<in> set ts \<and> b \<le> f \<and> f < e \<and> b' \<le> f \<and> f < e'"
  then have "(b, e, v) \<in> set (ts @ [t])" "(b', e', v') \<in> set (ts @ [t])" by simp_all
  from triples_okD(2) [OF assms this] a show "v = v'" by blast
qed

lemma fill_blocks:
  assumes "triples_ok n ts" and "length s = n"
  shows "length (foldl (\<lambda>qflat (start, stop, ch). assign_slice qflat start stop ch) s ts) = n \<and>
         (\<forall>b e v f. (b, e, v) \<in> set ts \<and> b \<le> int f \<and> int f < e \<longrightarrow>
            foldl (\<lambda>qflat (start, stop, ch). assign_slice qflat start stop ch) s ts ! f = Some v)"
  using assms(1)
proof (induction ts rule: rev_induct)
  case Nil
  with assms(2) show ?case by simp
next
  case (snoc t ts)
  let ?F = "\<lambda>qflat (start, stop, ch). assign_slice qflat start stop ch"
  obtain b e v where t: "t = (b, e, v)" by (cases t)
  have ok: "triples_ok n ts" by (rule triples_ok_butlast [OF snoc.prems])
  from snoc.IH [OF ok] have len: "length (foldl ?F s ts) = n"
    and ih: "\<And>b' e' v' f. (b', e', v') \<in> set ts \<Longrightarrow> b' \<le> int f \<Longrightarrow> int f < e' \<Longrightarrow>
               foldl ?F s ts ! f = Some v'"
    by blast+
  have tm: "(b, e, v) \<in> set (ts @ [t])" by (simp add: t)
  from triples_okD(1) [OF snoc.prems tm]
  have bnd: "0 \<le> b" "b \<le> e" "e \<le> int (length (foldl ?F s ts))"
    unfolding len by simp_all
  have st: "foldl ?F s (ts @ [t]) = assign_slice (foldl ?F s ts) b e v" by (simp add: t)
  note as = assign_slice_nth [OF bnd, where v = v]
  have l: "length (foldl ?F s (ts @ [t])) = n" unfolding st using as(1) len by simp
  have "foldl ?F s (ts @ [t]) ! f = Some v'"
    if mem: "(b', e', v') \<in> set (ts @ [t])" and f: "b' \<le> int f" "int f < e'" for b' e' v' f
  proof -
    from triples_okD(1) [OF snoc.prems mem] have "e' \<le> int n" by simp
    with f have fn: "f < length (foldl ?F s ts)" by (simp add: len)
    show ?thesis
    proof (cases "b \<le> int f \<and> int f < e")
      case True
      then have "b \<le> int f" "int f < e" by simp_all
      from triples_okD(2) [OF snoc.prems tm mem this f] have "v = v'" .
      with True as(2) [OF fn] show ?thesis unfolding st by simp
    next
      case False
      with mem f t have "(b', e', v') \<in> set ts" by auto
      from ih [OF this f] False as(2) [OF fn] show ?thesis unfolding st by auto
    qed
  qed
  with l show ?case by blast
qed

lemma leg_triples:
  assumes "length sl = length rows + 1"
  shows "length (zip (butlast sl) (zip (tl sl) rows)) = length rows"
    and "q < length rows \<Longrightarrow> zip (butlast sl) (zip (tl sl) rows) ! q = (sl ! q, sl ! (q + 1), rows ! q)"
  using assms by (auto simp: nth_butlast nth_tl)

lemma leg_triples_ok:
  assumes "leg_shape L"
  shows "triples_ok (nat (ind_len L)) (zip (butlast (slices L)) (zip (tl (slices L)) (charges L)))"
proof -
  let ?sl = "slices L" and ?rows = "charges L"
  let ?ts = "zip (butlast ?sl) (zip (tl ?sl) ?rows)"
  from assms have len: "length ?sl = length ?rows + 1" and z: "?sl ! 0 = 0"
    and srt: "sorted ?sl" and il: "ind_len L = last ?sl" by (auto simp: leg_shape_def)
  note tr = leg_triples [OF len]
  have ne: "?sl \<noteq> []" using len by auto
  have mem: "\<exists>q<length ?rows. t = (?sl ! q, ?sl ! (q + 1), ?rows ! q)" if "t \<in> set ?ts" for t
  proof -
    from that obtain q where "q < length ?ts" "?ts ! q = t" by (auto simp: in_set_conv_nth)
    with tr show ?thesis by auto
  qed
  have mono: "?sl ! i \<le> ?sl ! j" if "i \<le> j" "j < length ?sl" for i j
    using srt that by (rule sorted_nth_mono)
  have last: "last ?sl = ?sl ! (length ?rows)" using ne len by (simp add: last_conv_nth)
  have bounds: "0 \<le> ?sl ! q \<and> ?sl ! q \<le> ?sl ! (q + 1) \<and> ?sl ! (q + 1) \<le> int (nat (ind_len L))"
    if "q < length ?rows" for q
  proof -
    have "?sl ! 0 \<le> ?sl ! q" using that len by (intro mono) auto
    moreover have "?sl ! q \<le> ?sl ! (q + 1)" using that len by (intro mono) auto
    moreover have "?sl ! (q + 1) \<le> ?sl ! (length ?rows)" using that len by (intro mono) auto
    ultimately show ?thesis using z il last by simp
  qed
  have uniq: "v = v'"
    if t: "(b, e, v) \<in> set ?ts" "(b', e', v') \<in> set ?ts" and f: "b \<le> f" "f < e" "b' \<le> f" "f < e'"
    for b e v b' e' v' f
  proof -
    from mem [OF t(1)] obtain q where q: "q < length ?rows" "b = ?sl ! q" "e = ?sl ! (q + 1)" "v = ?rows ! q"
      by auto
    from mem [OF t(2)] obtain q' where q': "q' < length ?rows" "b' = ?sl ! q'" "e' = ?sl ! (q' + 1)" "v' = ?rows ! q'"
      by auto
    have "q = q'"
      by (rule sorted_block_unique [OF srt, of q q' f]) (use q q' f len in auto)
    with q q' show ?thesis by simp
  qed
  show ?thesis
    unfolding triples_ok_def
  proof (rule conjI; intro allI impI)
    fix b e v assume "(b, e, v) \<in> set ?ts"
    from mem [OF this] bounds show "0 \<le> b \<and> b \<le> e \<and> e \<le> int (nat (ind_len L))"
      by auto
  next
    fix b e v b' e' v' f
    assume "(b, e, v) \<in> set ?ts \<and> (b', e', v') \<in> set ?ts \<and> b \<le> f \<and> f < e \<and> b' \<le> f \<and> f < e'"
    then show "v = v'" using uniq by blast
  qed
qed

lemma to_qflat_nth:
  assumes "leg_shape L"
  shows "\<exists>fl. to_qflat L = Inr fl \<and> length fl = nat (ind_len L) \<and>
           (\<forall>q<length (charges L). \<forall>f. slices L ! q \<le> int f \<and> int f < slices L ! (q + 1) \<longrightarrow>
              fl ! f = Some (charges L ! q))"
proof -
  let ?sl = "slices L" and ?rows = "charges L"
  let ?ts = "zip (butlast ?sl) (zip (tl ?sl) ?rows)"
  let ?F = "\<lambda>qflat (start, stop, ch). assign_slice qflat start stop ch"
  let ?fl = "foldl ?F (replicate (nat (ind_len L)) None) ?ts"
  from assms have len: "length ?sl = length ?rows + 1" and z: "?sl ! 0 = 0"
    and srt: "sorted ?sl" and il: "ind_len L = last ?sl" by (auto simp: leg_shape_def)
  have ne: "?sl \<noteq> []" using len by auto
  have "?sl ! 0 \<le> ?sl ! (length ?sl - 1)" using srt ne by (intro sorted_nth_mono) auto
  with z il ne have nn: "0 \<le> ind_len L" by (simp add: last_conv_nth)
  have fb: "length ?fl = nat (ind_len L) \<and>
         (\<forall>b e v f. (b, e, v) \<in> set ?ts \<and> b \<le> int f \<and> int f < e \<longrightarrow> ?fl ! f = Some v)"
    by (rule fill_blocks [OF leg_triples_ok [OF assms]]) simp
  have "?fl ! f = Some (?rows ! q)"
    if q: "q < length ?rows" and f: "?sl ! q \<le> int f \<and> int f < ?sl ! (q + 1)" for q f
  proof -
    from leg_triples [OF len] q have "(?sl ! q, ?sl ! (q + 1), ?rows ! q) \<in> set ?ts"
      by (metis nth_mem)
    with fb f show ?thesis by blast
  qed
  moreover have "to_qflat L = Inr ?fl" using nn by (simp add: to_qflat_def)
  ultimately show ?thesis using fb by blast
qed

lemma to_qflat_coarser:
  assumes L: "leg_shape L" and L': "leg_shape L'" and il: "ind_len L' = ind_len L"
    and ref: "\<forall>q<length (charges L). \<exists>q'<length (charges L').
                slices L' ! q' \<le> slices L ! q \<and> slices L ! (q + 1) \<le> slices L' ! (q' + 1) \<and>
                charges L' ! q' = charges L ! q"
  shows "to_qflat L' = to_qflat L"
proof -
  from to_qflat_nth [OF L] obtain fl where fl: "to_qflat L = Inr fl" "length fl = nat (ind_len L)"
    "\<And>q f. q < length (charges L) \<Longrightarrow> slices L ! q \<le> int f \<and> int f < slices L ! (q + 1) \<Longrightarrow>
       fl ! f = Some (charges L ! q)" by blast
  from to_qflat_nth [OF L'] obtain fl' where fl': "to_qflat L' = Inr fl'" "length fl' = nat (ind_len L')"
    "\<And>q f. q < length (charges L') \<Longrightarrow> slices L' ! q \<le> int f \<and> int f < slices L' ! (q + 1) \<Longrightarrow>
       fl' ! f = Some (charges L' ! q)" by blast
  from L have len: "length (slices L) = length (charges L) + 1" and z: "slices L ! 0 = 0"
    and lst: "ind_len L = last (slices L)" by (auto simp: leg_shape_def)
  have "fl' = fl"
  proof (rule nth_equalityI)
    show "length fl' = length fl" using fl fl' il by simp
    fix f assume "f < length fl'"
    with fl' il have f: "int f < ind_len L" by simp
    have "\<exists>q. q + 1 < length (slices L) \<and> slices L ! q \<le> int f \<and> int f < slices L ! (q + 1)"
      by (rule block_exists) (use len z lst f in auto)
    then obtain q where q: "q < length (charges L)" "slices L ! q \<le> int f" "int f < slices L ! (q + 1)"
      using len by auto
    from ref q obtain q' where q': "q' < length (charges L')" "slices L' ! q' \<le> slices L ! q"
      "slices L ! (q + 1) \<le> slices L' ! (q' + 1)" "charges L' ! q' = charges L ! q" by blast
    have "fl ! f = Some (charges L ! q)" using fl(3) q by simp
    moreover have "fl' ! f = Some (charges L' ! q')" using fl'(3) [OF q'(1), of f] q q' by simp
    ultimately show "fl' ! f = fl ! f" using q' by simp
  qed
  with fl fl' show ?thesis by simp
qed


lemma test_sanity_rows:
  assumes "test_sanity L = Inr ()"
  shows "\<forall>row\<in>set (charges L). length row = qnumber (chinfo L)"
  using assms by (auto simp: test_sanity_def list_ex_iff split: if_splits)

lemma leg_shapeI:
  assumes "test_sanity L = Inr ()" and "ind_len L = last (slices L)"
    and "block_number L = length (charges L)" and "sorted (slices L)"
  shows "leg_shape L"
  using assms test_sanity_slices [OF assms(1)] by (simp add: leg_shape_def)

lemma bunch_empty:
  assumes "\<not> bunched L" and "charges L = []"
  shows "\<exists>e. bunch L = Inl e"
  using assms
  by (simp add: bunch_def c_find_row_differences_def bind_r_def take_idx_def)

lemma bunch_unbunched:
  fixes L :: "'a LegCharge_scheme"
  defines "idx \<equiv> 0 # filter (\<lambda>i. charges L ! (i - 1) \<noteq> charges L ! i) [1..<length (charges L)]
                    @ [length (charges L)]"
  assumes san: "test_sanity L = Inr ()" and bn: "block_number L = length (charges L)"
    and nb: "\<not> bunched L" and B: "0 < length (charges L)"
  shows "bunch L = Inr (idx, L\<lparr> charges := map ((!) (charges L)) (butlast idx),
                                 block_number := length (butlast idx),
                                 slices := map ((!) (slices L)) idx,
                                 ind_len := slices L ! length (charges L),
                                 bunched := True \<rparr>)"
proof -
  note p = row_diffs_props [OF B, folded idx_def]
  note s = test_sanity_slices [OF san]
  have f: "c_find_row_differences (qnumber (chinfo L)) (charges L) = Inr idx"
    unfolding idx_def by (rule c_find_row_differences_eq [OF B test_sanity_rows [OF san]])
  have c: "take_idx (charges L) (butlast idx) = Inr (map ((!) (charges L)) (butlast idx))"
    by (rule take_idx_ok) (use p(5) in simp)
  have sl: "take_idx (slices L) idx = Inr (map ((!) (slices L)) idx)"
  proof (rule take_idx_ok, rule ballI)
    fix i assume "i \<in> set idx"
    with p(4) have "i \<le> length (charges L)" by simp
    with s bn show "i < length (slices L)" by simp
  qed
  have ne: "idx \<noteq> []" using p(7) by auto
  have "last (map ((!) (slices L)) idx) = slices L ! last idx" using ne by (simp add: last_map)
  with p(3) have lst: "last (map ((!) (slices L)) idx) = slices L ! length (charges L)" by simp
  have g: "py_get (map ((!) (slices L)) idx) (- 1) = Inr (slices L ! length (charges L))"
    using ne lst by (cases idx rule: rev_cases) (simp_all add: py_get_def Let_def nth_append)
  show ?thesis
    using nb by (simp add: bunch_def f c sl g bind_r_def set_slices_def set_charges_def)
qed

text \<open>
  Claim C10, as amended. For a leg that passes \<^verbatim>\<open>test_sanity\<close>, with non-decreasing
  slices (which \<^verbatim>\<open>test_sanity\<close> does not ask for), \<^verbatim>\<open>ind_len\<close> the last slice and
  \<^verbatim>\<open>block_number\<close> the number of charge rows, as the constructor leaves them: whenever
  \<^verbatim>\<open>bunch\<close> returns a leg, that leg has the same \<^verbatim>\<open>ind_len\<close> and the same
  \<^verbatim>\<open>to_qflat\<close> table (which both compute without error), no more blocks and slices
  than before, and the same \<^verbatim>\<open>chinfo\<close> and \<^verbatim>\<open>qconj\<close>; and \<^verbatim>\<open>bunch\<close> does return
  a leg when the leg is flagged bunched or has at least one block.
\<close>

theorem bunch_keeps_qflat:
  assumes san: "test_sanity L = Inr ()" and len: "ind_len L = last (slices L)"
    and bn: "block_number L = length (charges L)" and srt: "sorted (slices L)"
  shows "(\<forall>idx cp. bunch L = Inr (idx, cp) \<longrightarrow>
            ind_len cp = ind_len L \<and>
            (\<exists>fl. to_qflat L = Inr fl \<and> to_qflat cp = Inr fl \<and> length fl = nat (ind_len L)) \<and>
            block_number cp \<le> block_number L \<and> length (slices cp) \<le> length (slices L) \<and>
            chinfo cp = chinfo L \<and> qconj cp = qconj L) \<and>
         (bunched L \<or> 0 < block_number L \<longrightarrow> (\<exists>idx cp. bunch L = Inr (idx, cp)))"
proof -
  note shape = leg_shapeI [OF san len bn srt]
  note s = test_sanity_slices [OF san]
  from to_qflat_nth [OF shape] obtain fl where
    fl: "to_qflat L = Inr fl" "length fl = nat (ind_len L)" by blast
  have keep: "ind_len cp = ind_len L \<and>
            (\<exists>fl. to_qflat L = Inr fl \<and> to_qflat cp = Inr fl \<and> length fl = nat (ind_len L)) \<and>
            block_number cp \<le> block_number L \<and> length (slices cp) \<le> length (slices L) \<and>
            chinfo cp = chinfo L \<and> qconj cp = qconj L"
    if r: "bunch L = Inr (idx, cp)" for idx cp
  proof (cases "bunched L")
    case True
    with r have "cp = L" by (simp add: bunch_def)
    with fl show ?thesis by simp
  next
    case False
    have B: "0 < length (charges L)"
    proof (rule ccontr)
      assume "\<not> 0 < length (charges L)"
      then have "charges L = []" by simp
      from bunch_empty [OF False this] r show False by simp
    qed
    let ?rows = "charges L" and ?sl = "slices L"
    define ix where "ix = 0 # filter (\<lambda>i. ?rows ! (i - 1) \<noteq> ?rows ! i) [1..<length ?rows] @ [length ?rows]"
    note p = row_diffs_props [OF B, folded ix_def]
    from bunch_unbunched [OF san bn False B, folded ix_def] r
    have cp: "cp = L\<lparr> charges := map ((!) ?rows) (butlast ix), block_number := length (butlast ix),
                      slices := map ((!) ?sl) ix, ind_len := ?sl ! length ?rows, bunched := True \<rparr>"
      by simp
    have ne: "?sl \<noteq> []" using s by auto
    have lastsl: "last ?sl = ?sl ! length ?rows" using ne s bn by (simp add: last_conv_nth)
    have il: "ind_len cp = ind_len L" using lastsl len by (simp add: cp)
    have ixlen: "2 \<le> length ix" by (rule p(7))
    have ixs: "sorted ix" using p(1) by (rule strict_sorted_imp_sorted)
    have ixb: "i < length ?sl" if "i \<in> set ix" for i
    proof -
      from that p(4) have "i \<le> length ?rows" by simp
      with s bn show ?thesis by simp
    qed
    have srt': "sorted (map ((!) ?sl) ix)"
      unfolding sorted_iff_nth_mono
    proof (intro allI impI)
      fix i j assume ij: "i \<le> j" "j < length (map ((!) ?sl) ix)"
      then have a: "ix ! i \<le> ix ! j" using ixs by (simp add: sorted_iff_nth_mono)
      have b: "ix ! j < length ?sl" using ij by (intro ixb) simp
      have "?sl ! (ix ! i) \<le> ?sl ! (ix ! j)" by (rule sorted_nth_mono [OF srt a b])
      with ij show "map ((!) ?sl) ix ! i \<le> map ((!) ?sl) ix ! j" by simp
    qed
    have shape': "leg_shape cp"
      unfolding leg_shape_def
    proof (intro conjI)
      show "length (slices cp) = length (charges cp) + 1" using ixlen by (simp add: cp)
      have "0 < length ix" using p(7) by linarith
      then have "map ((!) ?sl) ix ! 0 = ?sl ! (ix ! 0)" by (rule nth_map)
      with p(2) s show "slices cp ! 0 = 0" by (simp add: cp)
      show "sorted (slices cp)" using srt' by (simp add: cp)
      have "ix \<noteq> []" using p(7) by auto
      then have "last (map ((!) ?sl) ix) = ?sl ! last ix" by (rule last_map)
      with p(3) show "ind_len cp = last (slices cp)" by (simp add: cp)
    qed
    have ref: "\<forall>q<length (charges L). \<exists>q'<length (charges cp).
                slices cp ! q' \<le> slices L ! q \<and> slices L ! (q + 1) \<le> slices cp ! (q' + 1) \<and>
                charges cp ! q' = charges L ! q"
    proof (intro allI impI)
      fix q assume q: "q < length (charges L)"
      have "\<exists>k. k + 1 < length ix \<and> ix ! k \<le> q \<and> q < ix ! (k + 1)"
        by (rule block_exists) (use p(2,3,7) q in auto)
      then obtain k where k: "k + 1 < length ix" "ix ! k \<le> q" "q < ix ! (k + 1)" by blast
      have kb: "k < length (butlast ix)" using k by simp
      have "ix ! (k + 1) < length ?sl" using k by (intro ixb) simp
      then have up: "?sl ! (q + 1) \<le> ?sl ! (ix ! (k + 1))"
        using srt k by (intro sorted_nth_mono) auto
      have "q < length ?sl" using q s bn by simp
      then have lo: "?sl ! (ix ! k) \<le> ?sl ! q" using srt k by (intro sorted_nth_mono) auto
      have same: "?rows ! q = ?rows ! (ix ! k)" by (rule p(8) [OF k])
      have "slices cp ! k = ?sl ! (ix ! k)" using k by (simp add: cp)
      moreover have "slices cp ! (k + 1) = ?sl ! (ix ! (k + 1))" using k by (simp add: cp)
      moreover have "charges cp ! k = ?rows ! (ix ! k)" using kb by (simp add: cp nth_butlast)
      moreover have "k < length (charges cp)" using kb by (simp add: cp)
      ultimately show "\<exists>q'<length (charges cp).
                slices cp ! q' \<le> slices L ! q \<and> slices L ! (q + 1) \<le> slices cp ! (q' + 1) \<and>
                charges cp ! q' = charges L ! q"
        using lo up same by auto
    qed
    have "to_qflat cp = to_qflat L" by (rule to_qflat_coarser [OF shape shape' il ref])
    moreover have "block_number cp \<le> block_number L" using p(6) ixlen bn by (simp add: cp)
    moreover have "length (slices cp) \<le> length (slices L)" using p(6) s bn by (simp add: cp)
    ultimately show ?thesis using il fl by (simp add: cp)
  qed
  have total: "\<exists>idx cp. bunch L = Inr (idx, cp)" if "bunched L \<or> 0 < block_number L"
  proof (cases "bunched L")
    case True
    then show ?thesis by (simp add: bunch_def)
  next
    case False
    with that bn have "0 < length (charges L)" by simp
    from bunch_unbunched [OF san bn False this] show ?thesis by blast
  qed
  from keep total show ?thesis by blast
qed

theorem bunch_keeps_qflat_witness:
  "test_sanity leg_U = Inr () \<and> ind_len leg_U = last (slices leg_U) \<and>
   block_number leg_U = length (charges leg_U) \<and> sorted (slices leg_U) \<and>
   bunch leg_U = Inr ([0, 2, 3], leg_S) \<and>
   to_qflat leg_S = to_qflat leg_U \<and>
   to_qflat leg_U = Inr [Some [0], Some [0], Some [0], Some [0], Some [0], Some [1]]"
proof -
  have san: "test_sanity leg_U = Inr ()"
    by (simp add: test_sanity_def leg_U_def parity_info_def check_valid_def check_valid_row_def)
  have len: "ind_len leg_U = last (slices leg_U)" by (simp add: leg_U_def)
  have bn: "block_number leg_U = length (charges leg_U)" by (simp add: leg_U_def)
  have srt: "sorted (slices leg_U)" by (simp add: leg_U_def)
  have b: "bunch leg_U = Inr ([0, 2, 3], leg_S)" by code_simp
  have q: "to_qflat leg_U = Inr [Some [0], Some [0], Some [0], Some [0], Some [0], Some [1]]"
    by code_simp
  from bunch_keeps_qflat [OF san len bn srt] b
  have "\<exists>fl. to_qflat leg_U = Inr fl \<and> to_qflat leg_S = Inr fl \<and> length fl = nat (ind_len leg_U)"
    by blast
  then have "to_qflat leg_S = to_qflat leg_U" by auto
  with san len bn srt b q show ?thesis by simp
qed

section \<open>Projection\<close>

lemma cumsum_from_length: "length (cumsum_from a xs) = length xs"
  by (induction xs arbitrary: a) auto

lemma cumsum_from_nth:
  assumes "k \<le> length xs"
  shows "(a # cumsum_from a xs) ! k = a + sum_list (take k xs)"
  using assms
proof (induction xs arbitrary: a k)
  case Nil
  then show ?case by simp
next
  case (Cons x xs)
  show ?case
  proof (cases k)
    case 0
    then show ?thesis by simp
  next
    case (Suc j)
    with Cons.prems have "j \<le> length xs" by simp
    from Cons.IH [OF this, of "a + x"] Suc show ?thesis by simp
  qed
qed

lemma cumsum_from_last: "last (a # cumsum_from a xs) = a + sum_list xs"
proof -
  have "a # cumsum_from a xs \<noteq> []" by simp
  from last_conv_nth [OF this]
  have "last (a # cumsum_from a xs) = (a # cumsum_from a xs) ! length xs"
    by (simp only: length_Cons cumsum_from_length diff_Suc_1)
  also have "\<dots> = a + sum_list (take (length xs) xs)" by (rule cumsum_from_nth) simp
  finally show ?thesis by simp
qed

lemma set_block_sizes_ok:
  "set_block_sizes L bs = Inr (L\<lparr> slices := 0 # cumsum bs, ind_len := sum_list bs \<rparr>)"
proof -
  have ne: "0 # cumsum bs \<noteq> []" by simp
  have "py_get (0 # cumsum bs) (- 1) = Inr ((0 # cumsum bs) ! (length (0 # cumsum bs) - 1))"
    by (simp add: py_get_def Let_def)
  then have "py_get (0 # cumsum bs) (- 1) = Inr (last (0 # cumsum bs))"
    by (simp only: last_conv_nth [OF ne])
  then show ?thesis
    using cumsum_from_last [of 0 bs]
    by (simp add: set_block_sizes_def set_slices_def bind_r_def cumsum_def)
qed

lemma py_slice_nonneg:
  assumes "0 \<le> b" and "b \<le> e" and "e \<le> int (length xs)"
  shows "py_slice xs b e = take (nat e - nat b) (drop (nat b) xs)"
proof -
  from assms have "py_bound (length xs) b = nat b" "py_bound (length xs) e = nat e"
    by (auto simp: py_bound_def)
  then show ?thesis by (simp add: py_slice_def Let_def)
qed

lemma py_slice_append:
  assumes "0 \<le> a" and "a \<le> b" and "b \<le> c" and "c \<le> int (length m)"
  shows "py_slice m a b @ py_slice m b c = py_slice m a c"
proof -
  from assms have n: "nat a \<le> nat b" "nat b \<le> nat c" by auto
  have "take (nat c - nat a) (drop (nat a) m) =
        take ((nat b - nat a) + (nat c - nat b)) (drop (nat a) m)" using n by simp
  also have "\<dots> = take (nat b - nat a) (drop (nat a) m) @
                   take (nat c - nat b) (drop (nat b - nat a) (drop (nat a) m))"
    by (rule take_add)
  also have "drop (nat b - nat a) (drop (nat a) m) = drop (nat b) m" using n by simp
  finally show ?thesis
    using assms by (simp add: py_slice_nonneg)
qed

lemma slices_partition:
  assumes "sorted sl" and "sl \<noteq> []" and "0 \<le> hd sl" and "last sl \<le> int (length m)"
  shows "concat (map (\<lambda>(b, e). py_slice m b e) (zip (butlast sl) (tl sl))) =
         py_slice m (hd sl) (last sl)"
  using assms(2,1,3,4)
proof (induction sl rule: list_nonempty_induct)
  case (single x)
  then show ?case by (simp add: py_slice_nonneg)
next
  case (cons x xs)
  then obtain y ys where xs: "xs = y # ys" by (cases xs) auto
  from cons.prems xs have xy: "x \<le> y" by simp
  from cons.prems xs have sxs: "sorted xs" by simp
  have ylast: "y \<le> last xs"
  proof -
    have "xs ! 0 \<le> xs ! (length xs - 1)" using sxs xs by (intro sorted_nth_mono) auto
    moreover have "last xs = xs ! (length xs - 1)" by (rule last_conv_nth [OF cons.hyps])
    moreover have "xs ! 0 = y" by (simp add: xs)
    ultimately show ?thesis by simp
  qed
  from cons.prems cons.hyps have lastb: "last xs \<le> int (length m)" by simp
  have ih: "concat (map (\<lambda>(b, e). py_slice m b e) (zip (butlast xs) (tl xs))) =
         py_slice m (hd xs) (last xs)"
    by (rule cons.IH [OF sxs]) (use cons.prems xy xs lastb in auto)
  have "concat (map (\<lambda>(b, e). py_slice m b e) (zip (butlast (x # xs)) (tl (x # xs)))) =
        py_slice m x y @ concat (map (\<lambda>(b, e). py_slice m b e) (zip (butlast xs) (tl xs)))"
    by (simp add: xs)
  also have "\<dots> = py_slice m x y @ py_slice m y (last xs)" using ih xs by simp
  also have "\<dots> = py_slice m x (last xs)"
    by (rule py_slice_append) (use cons.prems xy ylast lastb in auto)
  finally show ?case using cons.hyps by simp
qed

lemma np_sum_concat: "np_sum (concat xs) = sum_list (map np_sum xs)"
  by (induction xs) (simp_all add: np_sum_def)

lemma sum_list_nonzero: "sum_list (filter (\<lambda>n. n \<noteq> 0) (ns :: nat list)) = sum_list ns"
  by (induction ns) auto

lemma map_nth_filter:
  "map ((!) xs) (filter (\<lambda>i. P (xs ! i)) [0..<length xs]) = filter P xs"
proof -
  have "filter P xs = filter P (map ((!) xs) [0..<length xs])" by (simp add: map_nth)
  also have "\<dots> = map ((!) xs) (filter (P \<circ> (!) xs) [0..<length xs])" by (rule filter_map)
  finally show ?thesis by (simp add: comp_def)
qed

lemma map_qind_fold:
  assumes "distinct keep" and "\<forall>i\<in>set keep. i < length m0"
  shows "length (fold (\<lambda>(k, i) m. m[i := int k]) (enumerate j keep) m0) = length m0 \<and>
         (\<forall>k<length keep. fold (\<lambda>(k, i) m. m[i := int k]) (enumerate j keep) m0 ! (keep ! k) = int (j + k)) \<and>
         (\<forall>q. q \<notin> set keep \<longrightarrow> fold (\<lambda>(k, i) m. m[i := int k]) (enumerate j keep) m0 ! q = m0 ! q)"
  using assms
proof (induction keep arbitrary: j m0)
  case Nil
  then show ?case by simp
next
  case (Cons i rest)
  let ?f = "\<lambda>(k, i) m. m[i := int k]"
  let ?m1 = "m0[i := int j]"
  let ?r = "fold ?f (enumerate (Suc j) rest) ?m1"
  have st: "fold ?f (enumerate j (i # rest)) m0 = ?r" by simp
  from Cons.prems have d: "distinct rest" and ni: "i \<notin> set rest"
    and b: "\<forall>i\<in>set rest. i < length ?m1" and ib: "i < length m0" by auto
  from Cons.IH [OF d b, of "Suc j"]
  have len: "length ?r = length m0"
    and kept: "\<And>k. k < length rest \<Longrightarrow> ?r ! (rest ! k) = int (Suc j + k)"
    and other: "\<And>q. q \<notin> set rest \<Longrightarrow> ?r ! q = ?m1 ! q"
    by auto
  have "?r ! ((i # rest) ! k) = int (j + k)" if "k < length (i # rest)" for k
  proof (cases k)
    case 0
    with other [OF ni] ib show ?thesis by simp
  next
    case (Suc k')
    with that kept [of k'] show ?thesis by simp
  qed
  moreover have "?r ! q = m0 ! q" if "q \<notin> set (i # rest)" for q
    using that other [of q] by simp
  ultimately show ?case unfolding st using len by blast
qed

lemma filter_upt_nth:
  assumes "q < B" and "P q"
  shows "length (filter P [0..<q]) < length (filter P [0..<B]) \<and>
         filter P [0..<B] ! length (filter P [0..<q]) = q"
proof -
  from assms have "[0..<B] = [0..<q] @ q # [Suc q..<B]"
  proof -
    have "[0..<q + (B - q)] = [0..<q] @ [q..<q + (B - q)]" by (rule upt_add_eq_append) simp
    then have "[0..<B] = [0..<q] @ [q..<B]" using assms(1) by simp
    moreover have "[q..<B] = q # [Suc q..<B]" using assms(1) by (rule upt_conv_Cons)
    ultimately show ?thesis by simp
  qed
  then have "filter P [0..<B] = filter P [0..<q] @ q # filter P [Suc q..<B]"
    using assms by simp
  then show ?thesis by (simp add: nth_append)
qed


lemma project_eq:
  fixes L :: "'a LegCharge_scheme" and msk :: "bool list"
  defines "keep \<equiv> filter (\<lambda>q. np_sum (block_mask L msk q) \<noteq> 0) [0..<block_number L]"
  assumes san: "test_sanity L = Inr ()" and bn: "block_number L = length (charges L)"
  shows "project L msk =
           Inr (fold (\<lambda>(k, i) m. m[i := int k]) (enumerate 0 keep) (replicate (block_number L) (- 1)),
                map (block_mask L msk) keep,
                L\<lparr> charges := map ((!) (charges L)) keep, block_number := length keep,
                   slices := 0 # cumsum (map (\<lambda>q. int (np_sum (block_mask L msk q))) keep),
                   ind_len := sum_list (map (\<lambda>q. int (np_sum (block_mask L msk q))) keep),
                   bunched := is_blocked L \<rparr>)"
proof -
  let ?B = "block_number L" and ?sl = "slices L"
  let ?bms = "map (\<lambda>(b, e). py_slice msk b e) (slice_start_stop L)"
  let ?lens = "map np_sum ?bms"
  note s = test_sanity_slices [OF san]
  have lss: "length (slice_start_stop L) = ?B" using s by (simp add: slice_start_stop_def)
  have ss: "slice_start_stop L ! q = (?sl ! q, ?sl ! (q + 1))" if "q < ?B" for q
    using that s by (simp add: slice_start_stop_def nth_butlast nth_tl)
  have bm: "?bms ! q = block_mask L msk q" if "q < ?B" for q
    using that lss ss [OF that] by (simp add: block_mask_def)
  have ln: "?lens ! q = np_sum (block_mask L msk q)" if "q < ?B" for q
    using that lss bm [OF that] by simp
  have k1: "filter (\<lambda>i. ?lens ! i \<noteq> 0) [0..<length ?lens] = keep"
    unfolding keep_def by (rule filter_cong) (use lss ln in auto)
  have kb: "i < ?B" if "i \<in> set keep" for i using that unfolding keep_def by simp
  have c: "take_idx (charges L) keep = Inr (map ((!) (charges L)) keep)"
    by (rule take_idx_ok) (use kb bn in auto)
  have nx: "\<not> list_ex (\<lambda>i. ?B \<le> i) keep"
    unfolding list_ex_iff
  proof
    assume "\<exists>i\<in>set keep. ?B \<le> i"
    then obtain i where "i \<in> set keep" "?B \<le> i" by blast
    with kb [of i] show False by simp
  qed
  have m1: "map (\<lambda>i. ?bms ! i) keep = map (block_mask L msk) keep"
    by (rule map_cong) (use kb bm in auto)
  have m2: "map (\<lambda>i. int (?lens ! i)) keep = map (\<lambda>q. int (np_sum (block_mask L msk q))) keep"
    by (rule map_cong) (use kb ln in auto)
  show ?thesis
    unfolding project_def Let_def k1 c m1 m2 bind_r_def
    using nx by (simp add: set_block_sizes_ok set_charges_def)
qed


lemma np_sum_mask_blocks:
  assumes san: "test_sanity L = Inr ()" and len: "ind_len L = last (slices L)"
    and srt: "sorted (slices L)" and m: "length msk = nat (ind_len L)"
  shows "sum_list (map (\<lambda>q. np_sum (block_mask L msk q)) [0..<block_number L]) = np_sum msk"
proof -
  let ?sl = "slices L" and ?B = "block_number L"
  note s = test_sanity_slices [OF san]
  have ne: "?sl \<noteq> []" using s by auto
  have hd0: "hd ?sl = 0" using s ne by (simp add: hd_conv_nth)
  have "?sl ! 0 \<le> ?sl ! (length ?sl - 1)" using srt ne by (intro sorted_nth_mono) auto
  moreover have "last ?sl = ?sl ! (length ?sl - 1)" by (rule last_conv_nth [OF ne])
  ultimately have nn: "0 \<le> ind_len L" using s len by simp
  with m len have lastm: "last ?sl = int (length msk)" by simp
  have "concat (map (\<lambda>(b, e). py_slice msk b e) (zip (butlast ?sl) (tl ?sl))) =
        py_slice msk (hd ?sl) (last ?sl)"
    by (rule slices_partition [OF srt ne]) (use hd0 lastm in auto)
  also have "\<dots> = msk" using hd0 lastm by (simp add: py_slice_nonneg)
  finally have cat: "concat (map (\<lambda>(b, e). py_slice msk b e) (zip (butlast ?sl) (tl ?sl))) = msk" .
  have "map (\<lambda>(b, e). py_slice msk b e) (zip (butlast ?sl) (tl ?sl)) =
        map (block_mask L msk) [0..<?B]"
  proof (rule nth_equalityI)
    show "length (map (\<lambda>(b, e). py_slice msk b e) (zip (butlast ?sl) (tl ?sl))) =
          length (map (block_mask L msk) [0..<?B])" using s by simp
    fix q assume "q < length (map (\<lambda>(b, e). py_slice msk b e) (zip (butlast ?sl) (tl ?sl)))"
    then have "q < ?B" using s by simp
    then show "map (\<lambda>(b, e). py_slice msk b e) (zip (butlast ?sl) (tl ?sl)) ! q =
               map (block_mask L msk) [0..<?B] ! q"
      using s by (simp add: block_mask_def nth_butlast nth_tl)
  qed
  with cat have "concat (map (block_mask L msk) [0..<?B]) = msk" by simp
  then have "np_sum msk = np_sum (concat (map (block_mask L msk) [0..<?B]))" by simp
  also have "\<dots> = sum_list (map np_sum (map (block_mask L msk) [0..<?B]))"
    by (rule np_sum_concat)
  finally show ?thesis by (simp add: comp_def)
qed

lemma sum_list_filter_nonzero_upt:
  fixes g :: "nat \<Rightarrow> nat"
  shows "sum_list (map (\<lambda>q. int (g q)) (filter (\<lambda>q. g q \<noteq> 0) qs)) = int (sum_list (map g qs))"
  by (induction qs) auto

text \<open>
  Claim C5, as amended. For a leg that passes \<^verbatim>\<open>test_sanity\<close>, with non-decreasing
  slices, \<^verbatim>\<open>ind_len\<close> the last slice and \<^verbatim>\<open>block_number\<close> the number of charge rows,
  and a mask with one flag per flat index, \<^verbatim>\<open>project\<close> returns (i) a map that is -1
  exactly at the blocks with no surviving index and otherwise the number of surviving
  blocks before the block, (ii) for every surviving block its part of the mask, and
  (iii) a leg that keeps the charge rows of the surviving blocks, each with as many
  indices as survive (none empty), whose \<^verbatim>\<open>ind_len\<close> is the number of surviving flat
  indices, and whose \<^verbatim>\<open>bunched\<close> flag is what \<^verbatim>\<open>is_blocked\<close> returns for the
  original leg; when the charge rows of the original leg are distinct, so are those of
  the projected leg.
\<close>

theorem project_result:
  fixes L :: "'a LegCharge_scheme" and msk :: "bool list"
  assumes san: "test_sanity L = Inr ()" and len: "ind_len L = last (slices L)"
    and bn: "block_number L = length (charges L)" and srt: "sorted (slices L)"
    and m: "length msk = nat (ind_len L)"
  shows "\<exists>map_qind block_masks cp.
     project L msk = Inr (map_qind, block_masks, cp) \<and>
     length map_qind = block_number L \<and>
     (\<forall>q<block_number L. (map_qind ! q = - 1) = (np_sum (block_mask L msk q) = 0)) \<and>
     (\<forall>q<block_number L. map_qind ! q \<noteq> - 1 \<longrightarrow>
         map_qind ! q = int (length (filter (\<lambda>p. np_sum (block_mask L msk p) \<noteq> 0) [0..<q])) \<and>
         nat (map_qind ! q) < block_number cp \<and>
         block_masks ! nat (map_qind ! q) = block_mask L msk q \<and>
         charges cp ! nat (map_qind ! q) = charges L ! q \<and>
         slices cp ! (nat (map_qind ! q) + 1) - slices cp ! nat (map_qind ! q) =
           int (np_sum (block_mask L msk q))) \<and>
     (\<forall>k<block_number cp. \<exists>q<block_number L. map_qind ! q = int k) \<and>
     (\<forall>k<block_number cp. 0 < slices cp ! (k + 1) - slices cp ! k) \<and>
     length block_masks = block_number cp \<and> length (charges cp) = block_number cp \<and>
     length (slices cp) = block_number cp + 1 \<and> slices cp ! 0 = 0 \<and>
     ind_len cp = int (np_sum msk) \<and> ind_len cp = last (slices cp) \<and>
     bunched cp = is_blocked L \<and> sorted_flag cp = sorted_flag L \<and>
     chinfo cp = chinfo L \<and> qconj cp = qconj L \<and>
     (distinct (charges L) \<longrightarrow> distinct (charges cp))"
proof -
  let ?B = "block_number L" and ?rows = "charges L"
  let ?n = "\<lambda>q. np_sum (block_mask L msk q)"
  let ?P = "\<lambda>q. ?n q \<noteq> 0"
  define keep where "keep = filter ?P [0..<?B]"
  define bs where "bs = map (\<lambda>q. int (?n q)) keep"
  define mq where "mq = fold (\<lambda>(k, i) m. m[i := int k]) (enumerate 0 keep) (replicate ?B (- 1 :: int))"
  define cp where "cp = L\<lparr> charges := map ((!) ?rows) keep, block_number := length keep,
                   slices := 0 # cumsum bs, ind_len := sum_list bs, bunched := is_blocked L \<rparr>"
  have pr: "project L msk = Inr (mq, map (block_mask L msk) keep, cp)"
    unfolding mq_def cp_def bs_def keep_def by (rule project_eq [OF san bn])
  have kd: "distinct keep" unfolding keep_def by simp
  have kmem: "q \<in> set keep \<longleftrightarrow> q < ?B \<and> ?P q" for q unfolding keep_def by auto
  have kb: "\<forall>i\<in>set keep. i < length (replicate ?B (- 1 :: int))" using kmem by simp
  from map_qind_fold [OF kd kb, of 0, folded mq_def]
  have mlen: "length mq = ?B"
    and mkept: "\<And>k. k < length keep \<Longrightarrow> mq ! (keep ! k) = int k"
    and mother: "\<And>q. q \<notin> set keep \<Longrightarrow> mq ! q = replicate ?B (- 1) ! q"
    by auto
  have pos: "\<exists>k<length keep. keep ! k = q \<and> mq ! q = int k \<and>
               k = length (filter ?P [0..<q])" if "q < ?B" "?P q" for q
  proof -
    from filter_upt_nth [of q ?B ?P] that
    have "length (filter ?P [0..<q]) < length keep" "keep ! length (filter ?P [0..<q]) = q"
      unfolding keep_def by simp_all
    with mkept [of "length (filter ?P [0..<q])"] show ?thesis by auto
  qed
  have neg: "mq ! q = - 1" if "q < ?B" "\<not> ?P q" for q
  proof -
    from that kmem have "q \<notin> set keep" by simp
    from mother [OF this] that show ?thesis by simp
  qed
  have c2: "(mq ! q = - 1) = (?n q = 0)" if "q < ?B" for q
  proof (cases "?P q")
    case True
    from pos [OF that True] obtain k where "mq ! q = int k" by blast
    with True show ?thesis by simp
  next
    case False
    with neg [OF that] show ?thesis by simp
  qed
  have sl_nth: "slices cp ! (k + 1) - slices cp ! k = bs ! k" if "k < length keep" for k
  proof -
    have lk: "k < length bs" using that by (simp add: bs_def)
    have a: "(0 # cumsum_from 0 bs) ! (k + 1) = 0 + sum_list (take (k + 1) bs)"
      by (rule cumsum_from_nth) (use lk in simp)
    have b: "(0 # cumsum_from 0 bs) ! k = 0 + sum_list (take k bs)"
      by (rule cumsum_from_nth) (use lk in simp)
    have "take (k + 1) bs = take k bs @ [bs ! k]" using lk by (simp add: take_Suc_conv_app_nth)
    with a b have "(0 # cumsum_from 0 bs) ! (k + 1) - (0 # cumsum_from 0 bs) ! k = bs ! k"
      by simp
    then show ?thesis by (simp add: cp_def cumsum_def)
  qed
  have c3: "mq ! q = int (length (filter ?P [0..<q])) \<and>
         nat (mq ! q) < block_number cp \<and>
         map (block_mask L msk) keep ! nat (mq ! q) = block_mask L msk q \<and>
         charges cp ! nat (mq ! q) = ?rows ! q \<and>
         slices cp ! (nat (mq ! q) + 1) - slices cp ! nat (mq ! q) = int (?n q)"
    if q: "q < ?B" and nz: "mq ! q \<noteq> - 1" for q
  proof -
    from c2 [OF q] nz have "?P q" by simp
    from pos [OF q this] obtain k where k: "k < length keep" "keep ! k = q" "mq ! q = int k"
      "k = length (filter ?P [0..<q])" by blast
    have "bs ! k = int (?n q)" using k by (simp add: bs_def)
    with sl_nth [OF k(1)] k show ?thesis by (simp add: cp_def)
  qed
  have c4: "\<exists>q<?B. mq ! q = int k" if "k < block_number cp" for k
  proof -
    from that have k: "k < length keep" by (simp add: cp_def)
    then have "keep ! k \<in> set keep" by simp
    with kmem have "keep ! k < ?B" by simp
    with mkept [OF k] show ?thesis by blast
  qed
  have c5: "0 < slices cp ! (k + 1) - slices cp ! k" if "k < block_number cp" for k
  proof -
    from that have k: "k < length keep" by (simp add: cp_def)
    then have "keep ! k \<in> set keep" by simp
    with kmem have "?P (keep ! k)" by simp
    moreover have "bs ! k = int (?n (keep ! k))" using k by (simp add: bs_def)
    ultimately show ?thesis using sl_nth [OF k] by simp
  qed
  have "sum_list bs = int (sum_list (map ?n [0..<?B]))"
    unfolding bs_def keep_def by (rule sum_list_filter_nonzero_upt)
  also have "\<dots> = int (np_sum msk)"
    by (simp only: np_sum_mask_blocks [OF san len srt m])
  finally have c6: "ind_len cp = int (np_sum msk)" by (simp add: cp_def)
  have c7: "ind_len cp = last (slices cp)"
    using cumsum_from_last [of 0 bs] by (simp add: cp_def cumsum_def)
  have c8: "distinct (charges cp)" if "distinct ?rows"
  proof -
    have "inj_on ((!) ?rows) (set keep)"
    proof (rule inj_onI)
      fix i j assume "i \<in> set keep" "j \<in> set keep" "?rows ! i = ?rows ! j"
      with kmem bn that show "i = j" by (simp add: nth_eq_iff_index_eq)
    qed
    with kd show ?thesis by (simp add: cp_def distinct_map)
  qed
  have lens: "length (map (block_mask L msk) keep) = block_number cp"
    "length (charges cp) = block_number cp" "length (slices cp) = block_number cp + 1"
    "slices cp ! 0 = 0"
    by (simp_all add: cp_def bs_def cumsum_def cumsum_from_length)
  have flags: "bunched cp = is_blocked L" "sorted_flag cp = sorted_flag L"
    "chinfo cp = chinfo L" "qconj cp = qconj L"
    by (simp_all add: cp_def)
  show ?thesis
    apply (rule exI [of _ mq], rule exI [of _ "map (block_mask L msk) keep"], rule exI [of _ cp])
    using pr mlen c2 c3 c4 c5 c6 c7 c8 lens flags by (intro conjI allI impI) blast+
qed


lemma project_leg_A:
  "project leg_A [True, True, True, False, False, False] =
     Inr ([0, 1, - 1], [[True, True], [True]], leg_P)"
  by code_simp

theorem project_result_witness:
  "test_sanity leg_A = Inr () \<and> ind_len leg_A = last (slices leg_A) \<and>
   block_number leg_A = length (charges leg_A) \<and> sorted (slices leg_A) \<and>
   length [True, True, True, False, False, False] = nat (ind_len leg_A) \<and>
   (\<exists>map_qind block_masks cp.
      project leg_A [True, True, True, False, False, False] = Inr (map_qind, block_masks, cp) \<and>
      map_qind = [0, 1, - 1] \<and> cp = leg_P \<and> ind_len cp = int (np_sum [True, True, True, False, False, False]) \<and>
      bunched cp = is_blocked leg_A)"
proof -
  have san: "test_sanity leg_A = Inr ()" by (rule leg_A_sane)
  have len: "ind_len leg_A = last (slices leg_A)" by (simp add: leg_A_def)
  have bn: "block_number leg_A = length (charges leg_A)" by (simp add: leg_A_def)
  have srt: "sorted (slices leg_A)" by (simp add: leg_A_def)
  have m: "length [True, True, True, False, False, False] = nat (ind_len leg_A)"
    by (simp add: leg_A_def)
  from project_result [OF san len bn srt m] obtain map_qind block_masks cp where
    r: "project leg_A [True, True, True, False, False, False] = Inr (map_qind, block_masks, cp)"
       "ind_len cp = int (np_sum [True, True, True, False, False, False])"
       "bunched cp = is_blocked leg_A"
    by blast
  from r(1) project_leg_A have "map_qind = [0, 1, - 1]" "cp = leg_P" by simp_all
  with san len bn srt m r show ?thesis by blast
qed

text \<open>
  Claim C5 as stated has the \<^verbatim>\<open>bunched\<close> flag of the projected leg true exactly when
  the projected leg is fully blocked by charge. Projecting the scenario's leg (charges
  \<open>[[0], [1], [0]]\<close>) onto its first two blocks gives the charges \<open>[[0], [1]]\<close>, which
  are distinct, with \<^verbatim>\<open>bunched\<close> false: the flag is \<^verbatim>\<open>is_blocked\<close> of the original leg.
\<close>

theorem project_bunched_counterexample:
  "project leg_A [True, True, True, False, False, False] =
     Inr ([0, 1, - 1], [[True, True], [True]], leg_P) \<and>
   \<not> (bunched leg_P \<longleftrightarrow> distinct (charges leg_P))"
  by code_simp

section \<open>Status flags\<close>

text \<open>
  Claim C4. \<^verbatim>\<open>from_qdict\<close> orders the blocks by the start of their slices and sets
  \<^verbatim>\<open>sorted = True\<close> without looking at the charges: for the dictionary
  \<open>{(0,): slice(2, 3), (1,): slice(0, 2)}\<close> it returns a leg with the charges
  \<open>[[1], [0]]\<close>, which are not in non-decreasing order, flagged sorted. (The flag
  \<^verbatim>\<open>bunched\<close> can be wrong as well, see \<open>sort_leg_stale_bunched\<close> below:
  \<^verbatim>\<open>sort(bunch=True)\<close> on the scenario's leg, which \<^verbatim>\<open>from_qind\<close> flags bunched, copies
  the flag, so that \<^verbatim>\<open>bunch\<close> does nothing, and returns the charges
  \<open>[[0], [0], [1]]\<close> flagged bunched.)
\<close>

theorem from_qdict_sorted_flag:
  "from_qdict parity_info [([0], (2, 3)), ([1], (0, 2))] 1 =
     Inr \<lparr> ind_len = 3, block_number = 2, chinfo = parity_info, slices = [0, 2, 3],
           charges = [[1], [0]], qconj = 1, sorted_flag = True, bunched = True \<rparr> \<and>
   \<not> sorted [[1], [0 :: int]]"
  by code_simp

lemma sort_leg_stale_bunched:
  "from_qind lexsort_rows parity_info [0, 2, 3, 6] [[0], [1], [0]] 1 = Inr leg_A \<and>
   sort_leg lexsort_rows leg_A True = Inr ([0, 2, 1], leg_U\<lparr> bunched := True \<rparr>) \<and>
   bunched (leg_U\<lparr> bunched := True \<rparr>) \<and> charges (leg_U\<lparr> bunched := True \<rparr>) = [[0], [0], [1]] \<and>
   \<not> distinct_adj [[0], [0], [1 :: int]]"
  by code_simp

section \<open>The fusion rule of a pipe\<close>

lemma chinfo_ok_mods:
  assumes "chinfo_ok c"
  shows "0 \<notin> set (mod_ci c)" and "\<forall>q\<in>set (mod_ci c). 0 \<le> q" and "qnumber c = length (mod_ci c)"
  using assms
  by (auto simp: chinfo_ok_def test_sanity_ci_def list_ex_iff not_less split: if_splits)

lemma reduce_row_length: "length v = length qs \<Longrightarrow> length (reduce_row qs v) = length qs"
  by (simp add: reduce_row_def)

lemma make_valid_vec_reduce:
  assumes "chinfo_ok c" and "length v = qnumber c"
  shows "make_valid_vec c v = Inr (reduce_row (mod_ci c) v)"
  using make_valid_1D_eq [OF chinfo_ok_mods(1,2) [OF assms(1)], of v] assms(2)
    chinfo_ok_mods(3) [OF assms(1)]
  by (simp add: make_valid_vec_def reduce_row_def)

lemma make_valid_mat_reduce:
  assumes "chinfo_ok c" and "\<forall>row\<in>set V. length row = qnumber c"
  shows "make_valid_mat c V = Inr (map (reduce_row (mod_ci c)) V)"
proof -
  note m = chinfo_ok_mods [OF assms(1)]
  have "map_r (make_valid_1D (mod_ci c)) V = Inr (map (reduce_row (mod_ci c)) V)"
  proof (rule map_r_Inr, rule ballI)
    fix v assume "v \<in> set V"
    with assms(2) m(3) have "length v = length (mod_ci c)" by simp
    from make_valid_1D_eq [OF m(1,2) this]
    show "make_valid_1D (mod_ci c) v = Inr (reduce_row (mod_ci c) v)" by (simp add: reduce_row_def)
  qed
  with assms(2) show ?thesis by (simp add: make_valid_mat_def make_valid_2D_def list_ex_iff)
qed

lemma reduce_row_idem:
  assumes "\<forall>q\<in>set qs. 0 \<le> q"
  shows "reduce_row qs (reduce_row qs v) = reduce_row qs v"
  unfolding reduce_row_def by (rule map2_reduce_idem [OF assms])

lemma reduce_row_valid:
  assumes "\<forall>q\<in>set qs. 0 \<le> q" and "0 \<notin> set qs"
  shows "check_valid_row qs (reduce_row qs v)"
  using assms
proof (induction qs v rule: list_induct2')
  case (4 q qs x xs)
  then have "q = 1 \<or> 1 < q" by auto
  moreover from 4 have "check_valid_row qs (reduce_row qs xs)" by simp
  ultimately show ?case by (auto simp: check_valid_row_def reduce_row_def)
qed (simp_all add: check_valid_row_def reduce_row_def)

lemma grid_rows_length: "length (grid_rows qshape) = prod_list qshape"
proof -
  have c: "length (concat (map (\<lambda>x. map (Cons x) rest) xs)) = length xs * length rest"
    for xs :: "nat list" and rest :: "nat list list"
    by (induction xs) simp_all
  have "length (product_lists (map (\<lambda>l. [0..<l]) qshape)) = prod_list qshape"
    by (induction qshape) (simp_all add: c)
  then show ?thesis by (simp add: grid_rows_def)
qed

lemma grid_rows_mem:
  "combo \<in> set (grid_rows qshape) \<longleftrightarrow> list_all2 (\<lambda>q l. q < l) combo qshape"
proof -
  have "list_all2 (\<lambda>x ys. x \<in> set ys) combo (map (\<lambda>l. [0..<l]) qshape) \<longleftrightarrow>
        list_all2 (\<lambda>q l. q < l) combo qshape"
    by (simp add: list_all2_map2)
  then show ?thesis by (simp add: grid_rows_def product_lists_set)
qed

lemma mult_block_sizes_ok:
  assumes "list_all2 (\<lambda>q l. q < length (get_block_sizes l)) combo lgs"
  shows "\<exists>s. mult_block_sizes b lgs combo = Inr s"
  using assms
proof (induction combo lgs arbitrary: b rule: list_all2_induct)
  case Nil
  show ?case by simp
next
  case (Cons q combo l lgs)
  from Cons.IH [of "b * get_block_sizes l ! q"] Cons.hyps(1) show ?case
    by (simp add: nth_c_def bind_r_def)
qed

lemma add_leg_charges_eq:
  assumes "list_all2 (\<lambda>q l. q < length (charges l) \<and> length (charges l ! q) = n) combo lgs"
    and "length acc = n"
  shows "add_leg_charges qc acc lgs combo =
           Inr (map (\<lambda>k. acc ! k + qc * fusion_sum lgs combo k) [0..<n])"
  using assms
proof (induction combo lgs arbitrary: acc rule: list_all2_induct)
  case Nil
  then have "map ((!) acc) [0..<n] = acc" using map_nth [of acc] by simp
  then show ?case by (simp add: fusion_sum_def)
next
  case (Cons q combo l lgs)
  let ?row = "charges l ! q"
  let ?acc = "map2 (\<lambda>a c. a + qc * qconj l * c) acc ?row"
  from Cons.hyps(1) have q: "q < length (charges l)" and w: "length ?row = n" by auto
  have la: "length ?acc = n" using w Cons.prems by simp
  have "add_leg_charges qc acc (l # lgs) (q # combo) = add_leg_charges qc ?acc lgs combo"
    using q w Cons.prems by (simp add: nth_c_def bind_r_def)
  also have "\<dots> = Inr (map (\<lambda>k. ?acc ! k + qc * fusion_sum lgs combo k) [0..<n])"
    by (rule Cons.IH [OF la])
  also have "map (\<lambda>k. ?acc ! k + qc * fusion_sum lgs combo k) [0..<n] =
             map (\<lambda>k. acc ! k + qc * fusion_sum (l # lgs) (q # combo) k) [0..<n]"
  proof (rule map_cong [OF refl])
    fix k assume "k \<in> set [0..<n]"
    then have "k < n" by simp
    with w Cons.prems have "?acc ! k = acc ! k + qc * qconj l * ?row ! k" by simp
    then show "?acc ! k + qc * fusion_sum lgs combo k =
               acc ! k + qc * fusion_sum (l # lgs) (q # combo) k"
      by (simp add: fusion_sum_def algebra_simps)
  qed
  finally show ?case .
qed


lemma map_r_ok:
  assumes "\<forall>x\<in>set xs. \<exists>y. f x = Inr y"
  shows "\<exists>ys. map_r f xs = Inr ys \<and> length ys = length xs"
  using assms
proof (induction xs)
  case Nil
  show ?case by simp
next
  case (Cons x xs)
  then obtain y ys where "f x = Inr y" "map_r f xs = Inr ys" "length ys = length xs" by auto
  then show ?case by simp
qed

lemma pipe_input_leg:
  assumes "pipe_input lgs ci" and "l \<in> set lgs"
  shows "test_sanity l = Inr ()" and "block_number l = length (charges l)" and "chinfo l = ci"
    and "length (get_block_sizes l) = block_number l"
    and "\<forall>row\<in>set (charges l). length row = qnumber ci"
proof -
  from assms show san: "test_sanity l = Inr ()" and "block_number l = length (charges l)"
    and ci: "chinfo l = ci" by (auto simp: pipe_input_def)
  from test_sanity_slices [OF san] show "length (get_block_sizes l) = block_number l"
    by (simp add: get_block_sizes_def)
  from test_sanity_rows [OF san] ci show "\<forall>row\<in>set (charges l). length row = qnumber ci" by simp
qed

lemma grid_combo:
  assumes "pipe_input lgs ci" and "combo \<in> set (grid_rows (map block_number lgs))"
  shows "list_all2 (\<lambda>q l. q < length (get_block_sizes l)) combo lgs"
    and "list_all2 (\<lambda>q l. q < length (charges l) \<and> length (charges l ! q) = qnumber ci) combo lgs"
    and "length combo = length lgs"
proof -
  from assms(2) have a: "list_all2 (\<lambda>q l. q < l) combo (map block_number lgs)"
    by (simp add: grid_rows_mem)
  then have b: "list_all2 (\<lambda>q l. q < block_number l) combo lgs" by (simp add: list_all2_map2)
  then show "length combo = length lgs" by (rule list_all2_lengthD)
  from b have n: "length combo = length lgs" and lt: "\<And>i. i < length combo \<Longrightarrow> combo ! i < block_number (lgs ! i)"
    by (simp_all add: list_all2_conv_all_nth)
  show "list_all2 (\<lambda>q l. q < length (get_block_sizes l)) combo lgs"
    unfolding list_all2_conv_all_nth
  proof (intro conjI allI impI)
    fix i assume i: "i < length combo"
    with n have "lgs ! i \<in> set lgs" by simp
    from pipe_input_leg(4) [OF assms(1) this] lt [OF i]
    show "combo ! i < length (get_block_sizes (lgs ! i))" by simp
  qed (rule n)
  show "list_all2 (\<lambda>q l. q < length (charges l) \<and> length (charges l ! q) = qnumber ci) combo lgs"
    unfolding list_all2_conv_all_nth
  proof (intro conjI allI impI)
    fix i assume i: "i < length combo"
    with n have m: "lgs ! i \<in> set lgs" by simp
    from pipe_input_leg(2) [OF assms(1) m] lt [OF i]
    show q: "combo ! i < length (charges (lgs ! i))" by simp
    then have "charges (lgs ! i) ! (combo ! i) \<in> set (charges (lgs ! i))" by simp
    with pipe_input_leg(5) [OF assms(1) m]
    show "length (charges (lgs ! i) ! (combo ! i)) = qnumber ci" by simp
  qed (rule n)
qed

lemma block_sizes_stage:
  assumes "pipe_input lgs ci"
  shows "\<exists>bs. map_r (mult_block_sizes 1 lgs) (grid_rows (map block_number lgs)) = Inr bs \<and>
              length bs = prod_list (map block_number lgs)"
proof -
  have "\<exists>bs. map_r (mult_block_sizes 1 lgs) (grid_rows (map block_number lgs)) = Inr bs \<and>
              length bs = length (grid_rows (map block_number lgs))"
  proof (rule map_r_ok, rule ballI)
    fix combo assume "combo \<in> set (grid_rows (map block_number lgs))"
    from mult_block_sizes_ok [OF grid_combo(1) [OF assms this]]
    show "\<exists>s. mult_block_sizes 1 lgs combo = Inr s" .
  qed
  then show ?thesis by (simp add: grid_rows_length)
qed

lemma total_charges_stage:
  assumes "pipe_input lgs ci"
  shows "total_charges ci qc lgs (grid_rows (map block_number lgs)) =
           Inr (map (fused_charge ci lgs qc) (grid_rows (map block_number lgs)))"
proof -
  let ?grid = "grid_rows (map block_number lgs)" and ?qn = "qnumber ci"
  let ?raw = "\<lambda>combo. map (\<lambda>k. qc * fusion_sum lgs combo k) [0..<?qn]"
  from assms have ok: "chinfo_ok ci" by (simp add: pipe_input_def)
  note m = chinfo_ok_mods [OF ok]
  show ?thesis
  proof (cases "0 < ?qn")
    case False
    then have z: "?qn = 0" by simp
    have "map (fused_charge ci lgs qc) ?grid = map (\<lambda>combo. []) ?grid"
      by (rule map_cong [OF refl]) (simp add: fused_charge_def reduce_row_def z)
    also have "\<dots> = replicate (length ?grid) []" by (rule map_replicate_const)
    finally show ?thesis using z by (simp add: total_charges_def)
  next
    case True
    have a: "map_r (add_leg_charges qc (replicate ?qn 0) lgs) ?grid = Inr (map ?raw ?grid)"
    proof (rule map_r_Inr, rule ballI)
      fix combo assume "combo \<in> set ?grid"
      from add_leg_charges_eq [OF grid_combo(2) [OF assms this], of "replicate ?qn 0" qc]
      have "add_leg_charges qc (replicate ?qn 0) lgs combo =
            Inr (map (\<lambda>k. replicate ?qn 0 ! k + qc * fusion_sum lgs combo k) [0..<?qn])"
        by simp
      also have "map (\<lambda>k. replicate ?qn 0 ! k + qc * fusion_sum lgs combo k) [0..<?qn] = ?raw combo"
        by (rule map_cong [OF refl]) simp
      finally show "add_leg_charges qc (replicate ?qn 0) lgs combo = Inr (?raw combo)" .
    qed
    have b: "make_valid_mat ci (map ?raw ?grid) = Inr (map (reduce_row (mod_ci ci)) (map ?raw ?grid))"
      by (rule make_valid_mat_reduce [OF ok]) simp
    have "make_valid_mat ci (map (reduce_row (mod_ci ci)) (map ?raw ?grid)) =
          Inr (map (reduce_row (mod_ci ci)) (map (reduce_row (mod_ci ci)) (map ?raw ?grid)))"
      by (rule make_valid_mat_reduce [OF ok]) (simp add: reduce_row_def m(3))
    also have "map (reduce_row (mod_ci ci)) (map (reduce_row (mod_ci ci)) (map ?raw ?grid)) =
               map (fused_charge ci lgs qc) ?grid"
      by (simp add: fused_charge_def reduce_row_idem [OF m(2)])
    finally have c: "make_valid_mat ci (map (reduce_row (mod_ci ci)) (map ?raw ?grid)) =
          Inr (map (fused_charge ci lgs qc) ?grid)" .
    show ?thesis
      unfolding total_charges_def using True by (simp only: a b c bind_r_def if_True sum.case)
  qed
qed

lemma fused_charge_props:
  assumes "chinfo_ok ci"
  shows "length (fused_charge ci lgs qc combo) = qnumber ci"
    and "check_valid_row (mod_ci ci) (fused_charge ci lgs qc combo)"
    and "make_valid_vec ci (map (\<lambda>k. qc * fusion_sum lgs combo k) [0..<qnumber ci]) =
           Inr (fused_charge ci lgs qc combo)"
proof -
  note m = chinfo_ok_mods [OF assms]
  show "length (fused_charge ci lgs qc combo) = qnumber ci"
    by (simp add: fused_charge_def reduce_row_def m(3))
  show "check_valid_row (mod_ci ci) (fused_charge ci lgs qc combo)"
    unfolding fused_charge_def by (rule reduce_row_valid [OF m(2,1)])
  show "make_valid_vec ci (map (\<lambda>k. qc * fusion_sum lgs combo k) [0..<qnumber ci]) =
           Inr (fused_charge ci lgs qc combo)"
    unfolding fused_charge_def by (rule make_valid_vec_reduce [OF assms]) simp
qed

lemma sort_stage:
  assumes "length (lexsort ch) = length ch" and "set (lexsort ch) = {..<length ch}"
    and "length grid = length ch" and "length bs = length ch"
  shows "\<exists>p prm. length p = length ch \<and> set p = {..<length ch} \<and>
           sort_by_charge lexsort srt grid ch bs =
             Inr (map ((!) grid) p, map ((!) ch) p, map ((!) bs) p, prm)"
proof (cases srt)
  case True
  let ?p = "lexsort ch"
  have "take_idx grid ?p = Inr (map ((!) grid) ?p)"
    by (rule take_idx_ok) (use assms in auto)
  moreover have "take_idx ch ?p = Inr (map ((!) ch) ?p)"
    by (rule take_idx_ok) (use assms in auto)
  moreover have "take_idx bs ?p = Inr (map ((!) bs) ?p)"
    by (rule take_idx_ok) (use assms in auto)
  ultimately have "sort_by_charge lexsort srt grid ch bs =
      Inr (map ((!) grid) ?p, map ((!) ch) ?p, map ((!) bs) ?p, Some (inverse_permutation ?p))"
    using True by (simp add: sort_by_charge_def bind_r_def Let_def)
  with assms(1,2) show ?thesis by blast
next
  case False
  let ?p = "[0..<length ch]"
  have "map ((!) grid) ?p = grid" "map ((!) ch) ?p = ch" "map ((!) bs) ?p = bs"
    using assms(3,4) map_nth [of grid] map_nth [of ch] map_nth [of bs] by simp_all
  with False have "sort_by_charge lexsort srt grid ch bs =
      Inr (map ((!) grid) ?p, map ((!) ch) ?p, map ((!) bs) ?p, None)"
    by (simp add: sort_by_charge_def)
  moreover have "length ?p = length ch" "set ?p = {..<length ch}" by auto
  ultimately show ?thesis by blast
qed


lemma fused_index_column_nth:
  assumes s: "sorted_wrt (<) idx" and z: "idx ! 0 = 0" and l: "last idx = n"
    and two: "2 \<le> length idx" and le: "\<forall>i\<in>set idx. i \<le> n"
  shows "length (fused_index_column n idx) = n"
    and "k + 1 < length idx \<Longrightarrow> idx ! k \<le> j \<Longrightarrow> j < idx ! (k + 1) \<Longrightarrow>
         fused_index_column n idx ! j = Some (int k)"
proof -
  let ?E = "enumerate 0 (zip (butlast idx) (tl idx))"
  let ?g = "\<lambda>(a, lo, hi). (int lo, int hi, int a)"
  let ?T = "map ?g ?E"
  let ?F = "\<lambda>qflat (start, stop, ch). assign_slice qflat start stop ch"
  let ?G = "\<lambda>col (a, lo, hi). assign_slice col (int lo) (int hi) (int a)"
  let ?col = "foldl ?G (replicate n None) ?E"
  have m: "length idx - 1 = length (butlast idx)" by simp
  have lE: "length ?E = length idx - 1" by simp
  have Tn: "?T ! k = (int (idx ! k), int (idx ! (k + 1)), int k)" if "k + 1 < length idx" for k
    using that by (simp add: nth_enumerate_eq nth_butlast nth_tl)
  have Tmem: "\<exists>k. k + 1 < length idx \<and> t = (int (idx ! k), int (idx ! (k + 1)), int k)"
    if "t \<in> set ?T" for t
  proof -
    from that obtain k where "k < length ?T" "?T ! k = t" by (auto simp: in_set_conv_nth)
    then have "k + 1 < length idx" by simp
    with Tn [OF this] \<open>?T ! k = t\<close> show ?thesis by auto
  qed
  have mono: "idx ! a \<le> idx ! b" if "a \<le> b" "b < length idx" for a b
    using strict_sorted_imp_sorted [OF s] that by (rule sorted_nth_mono)
  have ok: "triples_ok n ?T"
    unfolding triples_ok_def
  proof (rule conjI; intro allI impI)
    fix b e v assume "(b, e, v) \<in> set ?T"
    from Tmem [OF this] obtain k where k: "k + 1 < length idx" "b = int (idx ! k)"
      "e = int (idx ! (k + 1))" by auto
    have "idx ! k \<le> idx ! (k + 1)" using k by (intro mono) auto
    moreover have "idx ! (k + 1) \<in> set idx" using k by (intro nth_mem) simp
    ultimately show "0 \<le> b \<and> b \<le> e \<and> e \<le> int n" using k le by auto
  next
    fix b e v b' e' v' f
    assume a: "(b, e, v) \<in> set ?T \<and> (b', e', v') \<in> set ?T \<and> b \<le> f \<and> f < e \<and> b' \<le> f \<and> f < e'"
    from Tmem [of "(b, e, v)"] a obtain k where k: "k + 1 < length idx" "b = int (idx ! k)"
      "e = int (idx ! (k + 1))" "v = int k" by auto
    from Tmem [of "(b', e', v')"] a obtain k' where k': "k' + 1 < length idx" "b' = int (idx ! k')"
      "e' = int (idx ! (k' + 1))" "v' = int k'" by auto
    have "k = k'"
    proof (rule sorted_block_unique [of "map int idx" k k' f])
      show "sorted (map int idx)"
        using strict_sorted_imp_sorted [OF s] by (simp add: sorted_map sorted_wrt_iff_nth_less sorted_iff_nth_mono)
    qed (use k k' a in auto)
    with k k' show "v = v'" by simp
  qed
  have fm: "?col = foldl ?F (replicate n None) ?T"
  proof -
    have "foldl ?F (replicate n None) (map ?g ?E) =
          foldl (\<lambda>a x. ?F a (?g x)) (replicate n None) ?E" by (rule foldl_map)
    moreover have "(\<lambda>a x. ?F a (?g x)) = ?G" by (auto simp: fun_eq_iff)
    ultimately show ?thesis by simp
  qed
  from fill_blocks [OF ok, of "replicate n None"]
  have cl: "length ?col = n"
    and cn: "\<And>b e v f. (b, e, v) \<in> set ?T \<Longrightarrow> b \<le> int f \<Longrightarrow> int f < e \<Longrightarrow> ?col ! f = Some v"
    unfolding fm by auto
  have bnd: "0 \<le> int n" "int n \<le> int n" "int n \<le> int (length ?col)" using cl by simp_all
  have fin: "fused_index_column n idx = assign_slice ?col (int n) (int n) (int (length idx - 1))"
    using l by (simp add: fused_index_column_def)
  show len: "length (fused_index_column n idx) = n"
    unfolding fin using assign_slice_nth(1) [OF bnd] cl by simp
  show "fused_index_column n idx ! j = Some (int k)"
    if k: "k + 1 < length idx" and lo: "idx ! k \<le> j" and hi: "j < idx ! (k + 1)"
  proof -
    have "idx ! (k + 1) \<in> set idx" using k by (intro nth_mem) simp
    with le hi have jn: "j < length ?col" unfolding cl by auto
    have "?T ! k \<in> set ?T" using k by (intro nth_mem) simp
    with Tn [OF k] have "(int (idx ! k), int (idx ! (k + 1)), int k) \<in> set ?T" by simp
    from cn [OF this, of j] lo hi have "?col ! j = Some (int k)" by simp
    with assign_slice_nth(2) [OF bnd jn, of "int (length idx - 1)"] show ?thesis
      unfolding fin by simp
  qed
qed

lemma test_sanity_update:
  fixes self :: "'a LegCharge_scheme"
  assumes "test_sanity self = Inr ()" and "set ch \<subseteq> set (charges self)"
    and "length sl = length ch + 1" and "sl ! 0 = 0"
  shows "test_sanity (self\<lparr> charges := ch, block_number := length ch, slices := sl, ind_len := il \<rparr>)
           = Inr ()"
proof -
  from assms(1) have rows: "\<forall>row\<in>set (charges self). length row = qnumber (chinfo self)"
    and val: "check_valid (chinfo self) (charges self)"
    and qc: "qconj self = - 1 \<or> qconj self = 1"
    by (auto simp: test_sanity_def list_ex_iff split: if_splits)
  from rows assms(2) have "\<forall>row\<in>set ch. length row = qnumber (chinfo self)" by blast
  moreover from val assms(2) have "check_valid (chinfo self) ch"
    by (auto simp: check_valid_def list_all_iff)
  ultimately show ?thesis using assms(3,4) qc
    by (auto simp: test_sanity_def list_ex_iff)
qed


lemma bunch_pipe_stage:
  fixes self :: LegPipe
  assumes san: "test_sanity self = Inr ()" and bn: "block_number self = length (charges self)"
    and nb: "\<not> bunched self" and pos: "bnch \<longrightarrow> 0 < length (charges self)"
  shows "\<exists>self' idx col ch sl il.
           bunch_pipe bnch self (length (charges self)) = Inr (self', idx, col) \<and>
           self' = self\<lparr> charges := ch, block_number := length ch, slices := sl, ind_len := il \<rparr> \<and>
           length sl = length ch + 1 \<and> sl ! 0 = 0 \<and> set ch \<subseteq> set (charges self) \<and>
           (bnch \<or> ch = charges self) \<and>
           length col = length (charges self) \<and>
           (\<forall>j<length (charges self). \<exists>k<length ch. col ! j = Some (int k) \<and> ch ! k = charges self ! j)"
proof (cases bnch)
  case False
  let ?n = "length (charges self)"
  note s = test_sanity_slices [OF san]
  have "bunch_pipe bnch self ?n = Inr (self, [0..<?n + 1], map (\<lambda>j. Some (int j)) [0..<?n])"
    using False by (simp add: bunch_pipe_def)
  moreover have "self = self\<lparr> charges := charges self, block_number := length (charges self),
                             slices := slices self, ind_len := ind_len self \<rparr>"
    using bn by simp
  moreover have "length (slices self) = length (charges self) + 1" using s bn by simp
  moreover have "\<forall>j<?n. \<exists>k<?n. map (\<lambda>j. Some (int j)) [0..<?n] ! j = Some (int k) \<and>
                    charges self ! k = charges self ! j"
    by auto
  ultimately show ?thesis using s(2) False
    apply (intro exI [of _ self] exI [of _ "[0..<?n + 1]"] exI [of _ "map (\<lambda>j. Some (int j)) [0..<?n]"]
        exI [of _ "charges self"] exI [of _ "slices self"] exI [of _ "ind_len self"])
    apply (intro conjI)
           apply assumption
          apply assumption
         apply assumption
        apply assumption
       apply simp
      apply simp
     apply simp
    apply assumption
    done
next
  case True
  let ?rows = "charges self" and ?sl = "slices self"
  let ?n = "length ?rows"
  from True pos have B: "0 < ?n" by simp
  define idx where "idx = 0 # filter (\<lambda>i. ?rows ! (i - 1) \<noteq> ?rows ! i) [1..<?n] @ [?n]"
  note p = row_diffs_props [OF B, folded idx_def]
  note s = test_sanity_slices [OF san]
  define ch where "ch = map ((!) ?rows) (butlast idx)"
  define sl where "sl = map ((!) ?sl) idx"
  let ?cpb = "self\<lparr> charges := ch, block_number := length (butlast idx), slices := sl,
                    ind_len := ?sl ! ?n, bunched := True \<rparr>"
  have b: "bunch self = Inr (idx, ?cpb)"
    unfolding ch_def sl_def idx_def by (rule bunch_unbunched [OF san bn nb B])
  have ne: "idx \<noteq> []" using p(7) by auto
  have lsl: "length sl = length ch + 1" using p(7) by (simp add: sl_def ch_def)
  have sl0: "sl ! 0 = 0"
  proof -
    have "0 < length idx" using p(7) by linarith
    then have "sl ! 0 = ?sl ! (idx ! 0)" unfolding sl_def by (rule nth_map)
    with p(2) s show ?thesis by simp
  qed
  have g: "py_get sl (- 1) = Inr (last sl)"
  proof -
    have n: "sl \<noteq> []" using ne by (simp add: sl_def)
    then have "nat (int (length sl) - 1) = length sl - 1" by (simp add: nat_diff_distrib')
    with last_conv_nth [OF n] n show ?thesis by (simp add: py_get_def Let_def)
  qed
  let ?self' = "self\<lparr> charges := ch, block_number := length ch, slices := sl, ind_len := last sl \<rparr>"
  have ss: "set_slices (set_charges self ch) sl = Inr ?self'"
    by (simp add: set_slices_def set_charges_def g bind_r_def)
  have bp: "bunch_pipe bnch self ?n = Inr (?self', idx, fused_index_column ?n idx)"
    using True by (simp add: bunch_pipe_def b ss bind_r_def)
  have sub: "set ch \<subseteq> set ?rows"
  proof
    fix r assume "r \<in> set ch"
    then obtain i where "i \<in> set (butlast idx)" "r = ?rows ! i" by (auto simp: ch_def)
    with p(5) show "r \<in> set ?rows" by simp
  qed
  note fc = fused_index_column_nth [OF p(1,2,3,7,4)]
  have col: "\<exists>k<length ch. fused_index_column ?n idx ! j = Some (int k) \<and> ch ! k = ?rows ! j"
    if j: "j < ?n" for j
  proof -
    have "\<exists>k. k + 1 < length idx \<and> idx ! k \<le> j \<and> j < idx ! (k + 1)"
      by (rule block_exists) (use p(2,3) ne j in auto)
    then obtain k where k: "k + 1 < length idx" "idx ! k \<le> j" "j < idx ! (k + 1)" by blast
    have kb: "k < length (butlast idx)" using k by simp
    have "ch ! k = ?rows ! (idx ! k)" using kb by (simp add: ch_def nth_butlast)
    also have "\<dots> = ?rows ! j" by (rule p(8) [OF k, symmetric])
    finally have "ch ! k = ?rows ! j" .
    moreover have "k < length ch" using kb by (simp add: ch_def)
    ultimately show ?thesis using fc(2) [OF k] by blast
  qed
  show ?thesis
    apply (intro exI [of _ ?self'] exI [of _ idx] exI [of _ "fused_index_column ?n idx"]
        exI [of _ ch] exI [of _ sl] exI [of _ "last sl"])
    using bp lsl sl0 sub True fc(1) col by (intro conjI) (simp_all only: simp_thms, blast)
qed


lemma prod_list_pos:
  assumes "\<forall>x\<in>set xs. 0 < (x :: nat)"
  shows "0 < prod_list xs"
  using assms by (induction xs) auto

lemma q_map_row_eq:
  assumes "k < length sl3" and "j + 1 < length sl2"
  shows "q_map_row sl2 sl3 j combo (Some (int k)) =
           Inr ([sl2 ! j - sl3 ! k, sl2 ! (j + 1) - sl3 ! k] @ map int combo @ [int k])"
  using assms by (simp add: q_map_row_def nth_c_def bind_r_def)

lemma q_map_row_parts:
  assumes "length combo = n"
  shows "combo_of n ([a, b] @ map int combo @ [int k]) = combo"
    and "fused_of ([a, b] @ map int combo @ [int k]) = k"
proof -
  have "take n (drop 2 ([a, b] @ map int combo @ [int k])) = map int combo"
    using assms by simp
  then have "combo_of n ([a, b] @ map int combo @ [int k]) = map nat (map int combo)"
    unfolding combo_of_def by (rule arg_cong)
  then show "combo_of n ([a, b] @ map int combo @ [int k]) = combo" by (simp add: comp_def)
  show "fused_of ([a, b] @ map int combo @ [int k]) = k" by (simp add: fused_of_def)
qed

lemma init_from_legs_result:
  fixes self :: LegPipe
  assumes inp: "pipe_input lgs ci" and san: "test_sanity self = Inr ()"
    and f: "legs self = lgs" "chinfo self = ci" "qconj self = qc" "nlegs self = length lgs"
      "subqshape self = map block_number lgs" "\<not> bunched self"
    and lex: "\<forall>c. length (lexsort c) = length c \<and> set (lexsort c) = {..<length c}"
    and pos: "bnch \<longrightarrow> (\<forall>l\<in>set lgs. 0 < block_number l)"
  shows "\<exists>P. init_from_legs lexsort self srt bnch = Inr P \<and> test_sanity P = Inr () \<and>
           legs P = lgs \<and> chinfo P = ci \<and> qconj P = qc \<and> subshape P = subshape self \<and>
           subqshape P = subqshape self \<and> nlegs P = nlegs self \<and>
           block_number P = length (charges P) \<and>
           length (q_map P) = prod_list (map block_number lgs) \<and>
           (\<not> bnch \<longrightarrow> block_number P = prod_list (map block_number lgs)) \<and>
           (\<forall>row\<in>set (q_map P).
              fused_of row < block_number P \<and>
              combo_of (length lgs) row \<in> set (grid_rows (map block_number lgs)) \<and>
              charges P ! fused_of row = fused_charge ci lgs qc (combo_of (length lgs) row)) \<and>
           (\<forall>combo\<in>set (grid_rows (map block_number lgs)).
              \<exists>row\<in>set (q_map P). combo_of (length lgs) row = combo)"
proof -
  let ?grid = "grid_rows (map block_number lgs)"
  let ?n = "prod_list (map block_number lgs)"
  let ?F = "fused_charge ci lgs qc"
  let ?ch = "map ?F ?grid"
  from inp have ok: "chinfo_ok ci" by (simp add: pipe_input_def)
  have gl: "length ?grid = ?n" by (rule grid_rows_length)
  from block_sizes_stage [OF inp] obtain bs where
    e1: "map_r (mult_block_sizes 1 lgs) ?grid = Inr bs" and lbs: "length bs = ?n" by blast
  have e2: "total_charges ci qc lgs ?grid = Inr ?ch" by (rule total_charges_stage [OF inp])
  have lch: "length ?ch = ?n" using gl by simp
  from lex have lx: "length (lexsort ?ch) = length ?ch" "set (lexsort ?ch) = {..<length ?ch}"
    by blast+
  have lg: "length ?grid = length ?ch" and lb: "length bs = length ?ch" using gl lbs by simp_all
  from sort_stage [where lexsort = lexsort and ch = ?ch and grid = ?grid and bs = bs and srt = srt,
      OF lx lg lb] gl obtain p prm where
    lp: "length p = ?n" and sp: "set p = {..<?n}"
    and e3: "sort_by_charge lexsort srt ?grid ?ch bs =
               Inr (map ((!) ?grid) p, map ((!) ?ch) p, map ((!) bs) p, prm)"
    by auto
  define g' where "g' = map ((!) ?grid) p"
  define c' where "c' = map ((!) ?ch) p"
  define b' where "b' = map ((!) bs) p"
  have pj: "p ! j < ?n" if "j < ?n" for j
  proof -
    from that lp have "p ! j \<in> set p" by simp
    with sp show ?thesis by simp
  qed
  have lg': "length g' = ?n" and lc': "length c' = ?n" and lb': "length b' = ?n"
    by (simp_all add: g'_def c'_def b'_def lp)
  have g'mem: "g' ! j \<in> set ?grid" if "j < ?n" for j
    using that pj [OF that] gl lp by (simp add: g'_def)
  have c'j: "c' ! j = ?F (g' ! j)" if "j < ?n" for j
    using that pj [OF that] gl lp by (simp add: g'_def c'_def)
  define self1 where
    "self1 = self\<lparr> strides := map (\<lambda>i. prod_list (drop (i + 1) (map block_number lgs))) [0..<length lgs] \<rparr>"
  define self2 where
    "self2 = self1\<lparr> perm := prm, charges := c', block_number := length c', sorted_flag := srt,
                     slices := 0 # cumsum b', ind_len := sum_list b' \<rparr>"
  have e4: "set_block_sizes ((set_charges (self1\<lparr> perm := prm \<rparr>) c')\<lparr> sorted_flag := srt \<rparr>) b'
              = Inr self2"
    by (simp add: set_block_sizes_ok set_charges_def self2_def)
  have rows2: "\<forall>row\<in>set c'. length row = qnumber ci \<and> check_valid_row (mod_ci ci) row"
  proof
    fix row assume "row \<in> set c'"
    then obtain j where "j < ?n" "row = c' ! j" using lc' by (auto simp: in_set_conv_nth)
    with c'j [of j] fused_charge_props(1,2) [OF ok, of lgs qc "g' ! j"]
    show "length row = qnumber ci \<and> check_valid_row (mod_ci ci) row" by simp
  qed
  from san f(3) have qcv: "qc = - 1 \<or> qc = 1"
    by (auto simp: test_sanity_def split: if_splits)
  have san2: "test_sanity self2 = Inr ()"
    using rows2 qcv f(2,3)
    by (auto simp: test_sanity_def self2_def self1_def list_ex_iff check_valid_def list_all_iff
        cumsum_def cumsum_from_length lb' lc')
  have bn2: "block_number self2 = length (charges self2)" by (simp add: self2_def)
  have nb2: "\<not> bunched self2" using f(6) by (simp add: self2_def self1_def)
  have ch2: "charges self2 = c'" by (simp add: self2_def)
  have pos2: "bnch \<longrightarrow> 0 < length (charges self2)"
  proof
    assume bnch
    with pos have "\<forall>x\<in>set (map block_number lgs). 0 < x" by simp
    from prod_list_pos [OF this] show "0 < length (charges self2)" by (simp add: ch2 lc')
  qed
  from bunch_pipe_stage [OF san2 bn2 nb2 pos2] obtain self3 idx col ch3 sl3 il3 where
    e5: "bunch_pipe bnch self2 ?n = Inr (self3, idx, col)"
    and s3: "self3 = self2\<lparr> charges := ch3, block_number := length ch3, slices := sl3, ind_len := il3 \<rparr>"
    and l3: "length sl3 = length ch3 + 1" "sl3 ! 0 = 0" "set ch3 \<subseteq> set c'"
    and nob: "bnch \<or> ch3 = c'"
    and lcol: "length col = ?n"
    and colj: "\<And>j. j < ?n \<Longrightarrow> \<exists>k<length ch3. col ! j = Some (int k) \<and> ch3 ! k = c' ! j"
    unfolding ch2 lc' by blast
  define kk where "kk = (\<lambda>j. nat (the (col ! j)))"
  have kj: "kk j < length ch3 \<and> col ! j = Some (int (kk j)) \<and> ch3 ! kk j = c' ! j" if "j < ?n" for j
  proof -
    from colj [OF that] obtain k where "k < length ch3" "col ! j = Some (int k)" "ch3 ! k = c' ! j"
      by blast
    then show ?thesis by (simp add: kk_def)
  qed
  let ?sl2 = "0 # cumsum b'"
  define row where "row = (\<lambda>j. [?sl2 ! j - sl3 ! kk j, ?sl2 ! (j + 1) - sl3 ! kk j]
                               @ map int (g' ! j) @ [int (kk j)])"
  define qm where "qm = map row [0..<?n]"
  have sl2: "slices self2 = ?sl2" by (simp add: self2_def)
  have sl3': "slices self3 = sl3" by (simp add: s3)
  have e6: "map_r (\<lambda>j. q_map_row ?sl2 sl3 j (g' ! j) (col ! j)) [0..<?n] = Inr qm"
    unfolding qm_def
  proof (rule map_r_Inr, rule ballI)
    fix j assume "j \<in> set [0..<?n]"
    then have j: "j < ?n" by simp
    from kj [OF j] l3(1) have k: "kk j < length sl3" "col ! j = Some (int (kk j))" by simp_all
    have "j + 1 < length ?sl2" using j by (simp add: cumsum_def cumsum_from_length lb')
    from q_map_row_eq [OF k(1) this] k(2)
    show "q_map_row ?sl2 sl3 j (g' ! j) (col ! j) = Inr (row j)" by (simp add: row_def)
  qed
  define P where "P = self3\<lparr> q_map := qm,
      q_map_slices := map (\<lambda>i. py_slice qm (int (idx ! i)) (int (idx ! (i + 1)))) [0..<length idx - 1] \<rparr>"
  have f1: "legs self1 = lgs" "chinfo self1 = ci" "qconj self1 = qc"
    using f by (simp_all add: self1_def)
  have res: "init_from_legs lexsort self srt bnch = Inr P"
    unfolding init_from_legs_def Let_def f self1_def [symmetric] gl
    by (simp add: f1 e1 e2 e3 bind_r_def g'_def [symmetric] c'_def [symmetric] b'_def [symmetric]
        e4 e5 sl2 sl3' e6 P_def)
  have san3: "test_sanity self3 = Inr ()"
    unfolding s3 by (rule test_sanity_update [OF san2]) (use l3 ch2 in simp_all)
  have sanP: "test_sanity P = Inr ()"
  proof -
    have "test_sanity P = test_sanity self3" by (simp add: test_sanity_def P_def)
    with san3 show ?thesis by simp
  qed
  have fields: "legs P = lgs" "chinfo P = ci" "qconj P = qc" "subshape P = subshape self"
    "subqshape P = subqshape self" "nlegs P = nlegs self" "block_number P = length (charges P)"
    "charges P = ch3" "q_map P = qm"
    using f by (simp_all add: P_def s3 self2_def self1_def)
  have lqm: "length (q_map P) = ?n" by (simp add: fields qm_def)
  have nobn: "block_number P = ?n" if "\<not> bnch"
    using that nob lc' by (simp add: fields)
  have rowj: "fused_of (row j) < block_number P \<and>
              combo_of (length lgs) (row j) \<in> set ?grid \<and>
              charges P ! fused_of (row j) = ?F (combo_of (length lgs) (row j))" if j: "j < ?n" for j
  proof -
    from grid_combo(3) [OF inp g'mem [OF j]] have lg: "length (g' ! j) = length lgs" .
    from q_map_row_parts [OF lg]
    have c: "combo_of (length lgs) (row j) = g' ! j" and k: "fused_of (row j) = kk j"
      by (simp_all add: row_def)
    from kj [OF j] c'j [OF j] g'mem [OF j] show ?thesis
      unfolding c k by (simp add: fields)
  qed
  have rows: "\<forall>r\<in>set (q_map P).
              fused_of r < block_number P \<and>
              combo_of (length lgs) r \<in> set ?grid \<and>
              charges P ! fused_of r = ?F (combo_of (length lgs) r)"
  proof
    fix r assume "r \<in> set (q_map P)"
    then obtain j where "j < ?n" "r = row j" by (auto simp: fields qm_def)
    with rowj [of j] show "fused_of r < block_number P \<and>
              combo_of (length lgs) r \<in> set ?grid \<and>
              charges P ! fused_of r = ?F (combo_of (length lgs) r)" by simp
  qed
  have cover: "\<forall>combo\<in>set ?grid. \<exists>r\<in>set (q_map P). combo_of (length lgs) r = combo"
  proof
    fix combo assume "combo \<in> set ?grid"
    then obtain i where i: "i < ?n" "?grid ! i = combo" using gl by (auto simp: in_set_conv_nth)
    with sp have "i \<in> set p" by simp
    then obtain j where j: "j < ?n" "p ! j = i" using lp by (auto simp: in_set_conv_nth)
    have "g' ! j = combo" using i j lp by (simp add: g'_def)
    moreover from grid_combo(3) [OF inp g'mem [OF j(1)]] have "length (g' ! j) = length lgs" .
    from q_map_row_parts(1) [OF this] have "combo_of (length lgs) (row j) = g' ! j"
      by (simp add: row_def)
    moreover have "row j \<in> set (q_map P)" using j(1) by (simp add: fields qm_def)
    ultimately show "\<exists>r\<in>set (q_map P). combo_of (length lgs) r = combo" by auto
  qed
  from res sanP fields(1-7) lqm nobn rows cover show ?thesis by blast
qed


lemma zero_row_valid:
  assumes "chinfo_ok ci"
  shows "check_valid_row (mod_ci ci) (replicate (qnumber ci) 0)"
proof -
  note m = chinfo_ok_mods [OF assms]
  have "q = 1 \<or> (0 \<le> x \<and> x < q)" if "(q, x) \<in> set (zip (mod_ci ci) (replicate (qnumber ci) 0))" for q x
  proof -
    from that have "q \<in> set (mod_ci ci)" "x = 0" by (auto dest: set_zip_leftD set_zip_rightD)
    with m(1,2) have "0 < q" "x = 0" by (auto simp: less_le)
    then show ?thesis by simp
  qed
  then show ?thesis by (auto simp: check_valid_row_def list_all_iff)
qed

lemma fusion_sum_two_legs:
  "fusion_sum [l0, l1] [i, j] k = charges l0 ! i ! k * qconj l0 + charges l1 ! j ! k * qconj l1"
  by (simp add: fusion_sum_def)

lemma reduce_row_effective:
  assumes nn: "\<forall>q\<in>set qs. 0 \<le> q" and nz: "0 \<notin> set qs" and qc: "qc = 1 \<or> qc = - 1"
    and len: "length qs = n"
  shows "reduce_row qs (map (\<lambda>c. c * qc) (reduce_row qs (map (\<lambda>k. qc * s k) [0..<n]))) =
         reduce_row qs (map s [0..<n])"
proof (rule nth_equalityI)
  show "length (reduce_row qs (map (\<lambda>c. c * qc) (reduce_row qs (map (\<lambda>k. qc * s k) [0..<n])))) =
        length (reduce_row qs (map s [0..<n]))"
    using len by (simp add: reduce_row_def)
next
  fix k assume "k < length (reduce_row qs (map (\<lambda>c. c * qc) (reduce_row qs (map (\<lambda>k. qc * s k) [0..<n]))))"
  then have k: "k < n" using len by (simp add: reduce_row_def)
  with len have "qs ! k \<in> set qs" by simp
  with nn nz have q: "qs ! k = 1 \<or> 1 < qs ! k" by (metis less_le not_less zless_add1_eq zero_less_one add.left_neutral)
  from qc have sq: "qc * qc = 1" by auto
  have "qc * s k * qc = (qc * qc) * s k" by (simp only: mult.commute mult.left_commute)
  then have one: "qc * s k * qc = s k" by (simp only: sq mult_1)
  have "(qc * s k mod qs ! k * qc) mod qs ! k = (qc * s k * qc) mod qs ! k"
    by (rule mod_mult_left_eq)
  then have md: "(qc * s k mod qs ! k * qc) mod qs ! k = s k mod qs ! k" by (simp only: one)
  from q show "reduce_row qs (map (\<lambda>c. c * qc) (reduce_row qs (map (\<lambda>k. qc * s k) [0..<n]))) ! k =
        reduce_row qs (map s [0..<n]) ! k"
    using k len one md by (auto simp: reduce_row_def)
qed

lemma get_charge_row:
  assumes "Q < length (charges P)"
  shows "get_charge P (int Q) = Inr (map (\<lambda>c. c * qconj P) (charges P ! Q))"
  using assms by (simp add: get_charge_def py_get_def bind_r_def Let_def)

lemma fused_charge_effective:
  assumes ok: "chinfo_ok ci" and qc: "qc = 1 \<or> qc = - 1"
  shows "make_valid_vec ci (map (\<lambda>c. c * qc) (fused_charge ci lgs qc combo)) =
         make_valid_vec ci (map (\<lambda>k. fusion_sum lgs combo k) [0..<qnumber ci])"
proof -
  note m = chinfo_ok_mods [OF ok]
  have "make_valid_vec ci (map (\<lambda>c. c * qc) (fused_charge ci lgs qc combo)) =
        Inr (reduce_row (mod_ci ci) (map (\<lambda>c. c * qc) (fused_charge ci lgs qc combo)))"
    by (rule make_valid_vec_reduce [OF ok]) (simp add: fused_charge_props(1) [OF ok])
  also have "reduce_row (mod_ci ci) (map (\<lambda>c. c * qc) (fused_charge ci lgs qc combo)) =
             reduce_row (mod_ci ci) (map (\<lambda>k. fusion_sum lgs combo k) [0..<qnumber ci])"
    unfolding fused_charge_def
    by (rule reduce_row_effective [OF m(2,1) qc]) (simp add: m(3))
  also have "Inr (reduce_row (mod_ci ci) (map (\<lambda>k. fusion_sum lgs combo k) [0..<qnumber ci])) =
             make_valid_vec ci (map (\<lambda>k. fusion_sum lgs combo k) [0..<qnumber ci])"
    by (rule make_valid_vec_reduce [OF ok, symmetric]) simp
  finally show ?thesis .
qed

text \<open>
  Claim C1, as amended. Let the legs be non-empty in number, each passing
  \<^verbatim>\<open>test_sanity\<close> with as many charge rows as blocks, all holding the one ChargeInfo
  object \<open>ci\<close> (as the constructor leaves it, no modulus 0); let \<open>qconj\<close> be 1 or -1, let
  \<^verbatim>\<open>lexsort\<close> return a permutation of the row positions, and let every leg have a
  block when bunching is asked for. Then \<^verbatim>\<open>LegPipe(legs, qconj, sort, bunch)\<close> returns a
  pipe whose \<^verbatim>\<open>q_map\<close> has one row per combination of blocks of the legs (their number
  is the product of the block counts, which is the \<^verbatim>\<open>block_number\<close> of the pipe without
  bunching), every combination in some row, and for every row the stored charge of the
  fused block of the row is \<^verbatim>\<open>make_valid\<close> of the pipe's \<^verbatim>\<open>qconj\<close> times the sum, over
  the legs, of the leg's block charge times the leg's own \<^verbatim>\<open>qconj\<close>; the effective
  charge of the fused block (\<^verbatim>\<open>get_charge\<close>) and that sum without the pipe's \<^verbatim>\<open>qconj\<close>
  have the same reduction, which is the fusion rule of the class docstring, read
  modulo the moduli.
\<close>

theorem LegPipe_fusion_rule:
  assumes ne: "lgs \<noteq> []"
    and legs_ok: "\<forall>l\<in>set lgs. test_sanity l = Inr () \<and> block_number l = length (charges l) \<and>
                   chinfo l = ci"
    and ci: "test_sanity_ci ci = Inr ()" "qnumber ci = length (mod_ci ci)" "0 \<notin> set (mod_ci ci)"
    and qc: "qc = 1 \<or> qc = - 1"
    and lex: "\<forall>c. length (lexsort c) = length c \<and> set (lexsort c) = {..<length c}"
    and pos: "bnch \<longrightarrow> (\<forall>l\<in>set lgs. 0 < block_number l)"
  shows "\<exists>P. LegPipe_init lexsort (\<lambda>i. True) lgs qc srt bnch = Inr P \<and>
           legs P = lgs \<and> qconj P = qc \<and> chinfo P = ci \<and>
           length (q_map P) = prod_list (map block_number lgs) \<and>
           (\<not> bnch \<longrightarrow> block_number P = prod_list (map block_number lgs)) \<and>
           (\<forall>row\<in>set (q_map P).
              fused_of row < block_number P \<and>
              combo_of (length lgs) row \<in> set (grid_rows (map block_number lgs)) \<and>
              make_valid_vec ci
                (map (\<lambda>k. qc * fusion_sum lgs (combo_of (length lgs) row) k) [0..<qnumber ci]) =
                Inr (charges P ! fused_of row) \<and>
              (\<exists>eff. get_charge P (int (fused_of row)) = Inr eff \<and>
                 make_valid_vec ci eff =
                 make_valid_vec ci
                   (map (\<lambda>k. fusion_sum lgs (combo_of (length lgs) row) k) [0..<qnumber ci]))) \<and>
           (\<forall>combo\<in>set (grid_rows (map block_number lgs)).
              \<exists>row\<in>set (q_map P). combo_of (length lgs) row = combo)"
proof -
  from ci have ok: "chinfo_ok ci" by (simp add: chinfo_ok_def)
  from ne legs_ok ok have inp: "pipe_input lgs ci" by (simp add: pipe_input_def)
  from ne obtain l0 rest where lgs: "lgs = l0 # rest" by (cases lgs) auto
  with legs_ok have c0: "chinfo l0 = ci" by simp
  let ?qn = "qnumber ci"
  let ?base = "\<lparr> ind_len = 1, block_number = 1, chinfo = ci, slices = [0, 1],
                  charges = [replicate ?qn 0], qconj = qc, sorted_flag = False, bunched = False \<rparr>"
  have sb: "test_sanity ?base = Inr ()"
    using qc zero_row_valid [OF ok] by (auto simp: test_sanity_def check_valid_def)
  have "py_get [0, 1 :: int] (- 1) = Inr 1" by (simp add: py_get_def)
  then have base: "LegCharge_init ci [0, 1] [replicate ?qn 0] qc = Inr ?base"
    using sb by (simp add: LegCharge_init_def bind_r_def)
  let ?self = "\<lparr> ind_len = 1, block_number = 1, chinfo = ci, slices = [0, 1],
                  charges = [replicate ?qn 0], qconj = qc, sorted_flag = False, bunched = False,
                  nlegs = length lgs, legs = lgs, subshape = map ind_len lgs,
                  subqshape = map block_number lgs, q_map = [], q_map_slices = [],
                  perm = None, strides = [] \<rparr>"
  have ss: "test_sanity ?self = Inr ()"
    using qc zero_row_valid [OF ok] by (auto simp: test_sanity_def check_valid_def)
  from init_from_legs_result [OF inp ss _ _ _ _ _ _ lex pos, of qc srt]
  obtain P where
    r: "init_from_legs lexsort ?self srt bnch = Inr P" and sp: "test_sanity P = Inr ()"
    and fl: "legs P = lgs" "chinfo P = ci" "qconj P = qc" "subshape P = map ind_len lgs"
      "subqshape P = map block_number lgs"
    and bnP: "block_number P = length (charges P)"
    and n: "length (q_map P) = prod_list (map block_number lgs)"
      "\<not> bnch \<longrightarrow> block_number P = prod_list (map block_number lgs)"
    and rows: "\<forall>row\<in>set (q_map P).
              fused_of row < block_number P \<and>
              combo_of (length lgs) row \<in> set (grid_rows (map block_number lgs)) \<and>
              charges P ! fused_of row = fused_charge ci lgs qc (combo_of (length lgs) row)"
    and cover: "\<forall>combo\<in>set (grid_rows (map block_number lgs)).
              \<exists>row\<in>set (q_map P). combo_of (length lgs) row = combo"
    by auto
  have eqs: "map_r (\<lambda>i. ChargeInfo_equal (i = 0 \<or> True) (chinfo (legs P ! i)) (chinfo P))
               [0..<length (legs P)] = Inr (map (\<lambda>i. True) [0..<length (legs P)])"
    by (rule map_r_Inr) (simp add: ChargeInfo_equal_cases)
  have tp: "test_sanity_pipe (\<lambda>i. i = 0 \<or> True) P = Inr ()"
    using sp fl unfolding test_sanity_pipe_def eqs by (simp add: bind_r_def list_all_iff)
  have init: "LegPipe_init lexsort (\<lambda>i. True) lgs qc srt bnch = Inr P"
    unfolding LegPipe_init_def lgs list.case c0 base bind_r_def sum.case
    using r tp unfolding lgs by (simp add: bind_r_def)
  have rows': "\<forall>row\<in>set (q_map P).
              fused_of row < block_number P \<and>
              combo_of (length lgs) row \<in> set (grid_rows (map block_number lgs)) \<and>
              make_valid_vec ci
                (map (\<lambda>k. qc * fusion_sum lgs (combo_of (length lgs) row) k) [0..<qnumber ci]) =
                Inr (charges P ! fused_of row) \<and>
              (\<exists>eff. get_charge P (int (fused_of row)) = Inr eff \<and>
                 make_valid_vec ci eff =
                 make_valid_vec ci
                   (map (\<lambda>k. fusion_sum lgs (combo_of (length lgs) row) k) [0..<qnumber ci]))"
  proof
    fix row assume mem: "row \<in> set (q_map P)"
    let ?combo = "combo_of (length lgs) row"
    from rows mem have r: "fused_of row < block_number P"
      "?combo \<in> set (grid_rows (map block_number lgs))"
      "charges P ! fused_of row = fused_charge ci lgs qc ?combo" by blast+
    from r(1) bnP have "fused_of row < length (charges P)" by simp
    from get_charge_row [OF this] r(3) fl(3)
    have g: "get_charge P (int (fused_of row)) = Inr (map (\<lambda>c. c * qc) (fused_charge ci lgs qc ?combo))"
      by simp
    have "\<exists>eff. get_charge P (int (fused_of row)) = Inr eff \<and>
                 make_valid_vec ci eff =
                 make_valid_vec ci (map (\<lambda>k. fusion_sum lgs ?combo k) [0..<qnumber ci])"
      using g fused_charge_effective [OF ok qc, of lgs ?combo] by blast
    with r fused_charge_props(3) [OF ok, of qc lgs ?combo]
    show "fused_of row < block_number P \<and>
              ?combo \<in> set (grid_rows (map block_number lgs)) \<and>
              make_valid_vec ci
                (map (\<lambda>k. qc * fusion_sum lgs ?combo k) [0..<qnumber ci]) =
                Inr (charges P ! fused_of row) \<and>
              (\<exists>eff. get_charge P (int (fused_of row)) = Inr eff \<and>
                 make_valid_vec ci eff =
                 make_valid_vec ci (map (\<lambda>k. fusion_sum lgs ?combo k) [0..<qnumber ci]))"
      by simp
  qed
  from init fl(1-3) n rows' cover show ?thesis by blast
qed


lemma pipe_M_init: "LegPipe_init lexsort_rows (\<lambda>i. True) [leg_X, leg_Y] (- 1) True True = Inr pipe_M"
  by code_simp

lemma pipe_N_init: "LegPipe_init lexsort_rows (\<lambda>i. True) [leg_X, leg_Y] (- 1) True False = Inr pipe_N"
  by code_simp

text \<open>When the second leg holds a ChargeInfo object of its own, equal in value to the
  first leg's, the \<^verbatim>\<open>test_sanity\<close> that ends the constructor raises.\<close>

lemma LegPipe_init_two_chinfo:
  "LegPipe_init lexsort_rows (\<lambda>i. False) [leg_X, leg_Y] (- 1) True True = Inl AttributeError"
  by code_simp

lemma lexsort_rows_perm:
  "\<forall>c. length (lexsort_rows c) = length c \<and> set (lexsort_rows c) = {..<length c}"
  by (auto simp: lexsort_rows_def)

theorem LegPipe_fusion_rule_witness:
  "LegPipe_init lexsort_rows (\<lambda>i. True) [leg_X, leg_Y] (- 1) True False = Inr pipe_N \<and>
   map block_number [leg_X, leg_Y] = [2, 3] \<and> block_number pipe_N = 6 \<and>
   length (q_map pipe_N) = 6 \<and>
   make_valid_vec z3_info (map (\<lambda>k. - 1 * fusion_sum [leg_X, leg_Y] [1, 2] k) [0..<qnumber z3_info]) =
     Inr (charges pipe_N ! 3)"
proof -
  have ne: "[leg_X, leg_Y] \<noteq> []" by simp
  have legs_ok: "\<forall>l\<in>set [leg_X, leg_Y]. test_sanity l = Inr () \<and>
      block_number l = length (charges l) \<and> chinfo l = z3_info"
    by (simp add: test_sanity_def leg_X_def leg_Y_def z3_info_def check_valid_def
        check_valid_row_def)
  have ci: "test_sanity_ci z3_info = Inr ()" "qnumber z3_info = length (mod_ci z3_info)"
    "0 \<notin> set (mod_ci z3_info)"
    by (simp_all add: test_sanity_ci_def z3_info_def)
  have qc: "(- 1 :: int) = 1 \<or> (- 1 :: int) = - 1" by simp
  have pos: "False \<longrightarrow> (\<forall>l\<in>set [leg_X, leg_Y]. 0 < block_number l)" by simp
  from LegPipe_fusion_rule [OF ne legs_ok ci qc lexsort_rows_perm pos, of True]
  obtain P where P: "LegPipe_init lexsort_rows (\<lambda>i. True) [leg_X, leg_Y] (- 1) True False = Inr P"
    and n: "length (q_map P) = prod_list (map block_number [leg_X, leg_Y])"
      "block_number P = prod_list (map block_number [leg_X, leg_Y])"
    and rows: "\<forall>row\<in>set (q_map P).
        make_valid_vec z3_info
          (map (\<lambda>k. - 1 * fusion_sum [leg_X, leg_Y] (combo_of (length [leg_X, leg_Y]) row) k)
             [0..<qnumber z3_info]) = Inr (charges P ! fused_of row)"
    by auto
  from P pipe_N_init have e: "P = pipe_N" by simp
  have bn: "map block_number [leg_X, leg_Y] = [2, 3]" by (simp add: leg_X_def leg_Y_def)
  have "[0, 2, 1, 2, 3] \<in> set (q_map pipe_N)" by (simp add: pipe_N_def)
  with rows e have "make_valid_vec z3_info
          (map (\<lambda>k. - 1 * fusion_sum [leg_X, leg_Y] (combo_of (length [leg_X, leg_Y]) [0, 2, 1, 2, 3]) k)
             [0..<qnumber z3_info]) = Inr (charges pipe_N ! fused_of [0, 2, 1, 2, 3])"
    by blast
  moreover have "combo_of (length [leg_X, leg_Y]) [0, 2, 1, 2, 3] = [1, 2]"
    by (simp add: combo_of_def)
  moreover have "fused_of [0, 2, 1, 2, 3] = 3" by (simp add: fused_of_def)
  ultimately have r: "make_valid_vec z3_info
      (map (\<lambda>k. - 1 * fusion_sum [leg_X, leg_Y] [1, 2] k) [0..<qnumber z3_info]) =
      Inr (charges pipe_N ! 3)"
    by simp
  from n e bn have "length (q_map pipe_N) = 6" "block_number pipe_N = 6" by simp_all
  with pipe_N_init bn r show ?thesis by simp
qed

text \<open>
  Claim C1 as stated is about the effective charge of the fused block, the stored
  charge times the pipe's \<^verbatim>\<open>qconj\<close>. For the pipe with \<^verbatim>\<open>qconj = -1\<close> built from the two
  legs above, the row of the combination \<open>(0, 1)\<close> belongs to the fused block 1, whose
  stored charge is 1 and whose effective charge is -1; the sum of the legs' effective
  charges is -1, its reduction is 2 (times the pipe's \<^verbatim>\<open>qconj\<close>: -2), and the reduction
  of the pipe's \<^verbatim>\<open>qconj\<close> times the sum is 1.
\<close>

theorem fusion_effective_charge_counterexample:
  "LegPipe_init lexsort_rows (\<lambda>i. True) [leg_X, leg_Y] (- 1) True True = Inr pipe_M \<and>
   [0, 2, 0, 1, 1] \<in> set (q_map pipe_M) \<and>
   combo_of 2 [0, 2, 0, 1, 1] = [0, 1] \<and> fused_of [0, 2, 0, 1, 1] = 1 \<and>
   get_charge pipe_M 1 = Inr [- 1] \<and>
   make_valid_vec z3_info (map (\<lambda>k. qconj pipe_M * fusion_sum [leg_X, leg_Y] [0, 1] k) [0..<1])
     = Inr [1] \<and>
   make_valid_vec z3_info (map (\<lambda>k. fusion_sum [leg_X, leg_Y] [0, 1] k) [0..<1]) = Inr [2] \<and>
   get_charge pipe_M 1 \<noteq>
     make_valid_vec z3_info (map (\<lambda>k. qconj pipe_M * fusion_sum [leg_X, leg_Y] [0, 1] k) [0..<1]) \<and>
   get_charge pipe_M 1 \<noteq> Inr (map (\<lambda>c. qconj pipe_M * c) [2])"
  by code_simp

section \<open>Conjugating a pipe\<close>

lemma conj_pipe_fields:
  "qconj (conj_pipe P) = - qconj P" "charges (conj_pipe P) = charges P"
  "legs (conj_pipe P) = map conj_leg (legs P)"
  by (simp_all add: conj_pipe_def conj_leg_def)

text \<open>
  Claim C3. \<^verbatim>\<open>outer_conj\<close> returns no copy: its second statement \<^verbatim>\<open>res.qconj = -1\<close>
  assigns the read-only attribute \<^verbatim>\<open>qconj\<close> through the untyped \<^verbatim>\<open>res\<close> and raises
  \<^verbatim>\<open>AttributeError\<close>, on the pipe above, built with \<^verbatim>\<open>qconj = -1\<close>, and on every other
  pipe. The charges that the claim expects, \<^verbatim>\<open>make_valid(-charges)\<close>, exist for the pipe
  above, and \<^verbatim>\<open>conj\<close>, which assigns through a typed reference, returns a copy with the
  negated \<^verbatim>\<open>qconj\<close>.
\<close>

theorem outer_conj_raises:
  "LegPipe_init lexsort_rows (\<lambda>i. True) [leg_X, leg_Y] (- 1) True True = Inr pipe_M \<and>
   qconj pipe_M = - 1 \<and>
   outer_conj pipe_M = Inl AttributeError \<and>
   outer_conj (pipe_M\<lparr> qconj := 1 \<rparr>) = Inl AttributeError \<and>
   (\<forall>P. outer_conj P = Inl AttributeError) \<and>
   make_valid_mat (chinfo pipe_M) (map (map uminus) (charges pipe_M)) = Inr [[0], [2], [1]] \<and>
   qconj (conj_pipe pipe_M) = 1"
proof -
  have a: "LegPipe_init lexsort_rows (\<lambda>i. True) [leg_X, leg_Y] (- 1) True True = Inr pipe_M"
    by code_simp
  have b: "qconj pipe_M = - 1" by code_simp
  have c: "outer_conj P = Inl AttributeError" for P
    by (simp add: outer_conj_def setattr_readonly_def bind_r_def)
  have d: "make_valid_mat (chinfo pipe_M) (map (map uminus) (charges pipe_M)) =
           Inr [[0], [2], [1]]"
    by code_simp
  have e: "qconj (conj_pipe pipe_M) = 1" by code_simp
  from a b c d e show ?thesis by simp
qed

section \<open>Sorting and bunching return\<close>

text \<open>On a leg that passes \<^verbatim>\<open>test_sanity\<close> and has a block, \<^verbatim>\<open>bunch\<close> and \<^verbatim>\<open>sort\<close>
  return a result and raise nothing, for every \<^verbatim>\<open>lexsort\<close> that returns a permutation of the
  block indices.\<close>

lemma bunch_returns:
  fixes L :: "'a LegCharge_scheme"
  assumes san: "test_sanity L = Inr ()" and bn: "block_number L = length (charges L)"
    and B: "0 < length (charges L)"
  shows "\<exists>idx cp. bunch L = Inr (idx, cp)"
proof (cases "bunched L")
  case True
  then show ?thesis by (simp add: bunch_def)
next
  case False
  from bunch_unbunched [OF san bn False B] show ?thesis by blast
qed

lemma sort_leg_returns:
  fixes L :: "'a LegCharge_scheme"
  assumes san: "test_sanity L = Inr ()" and bn: "block_number L = length (charges L)"
    and lex: "length (lexsort (charges L)) = length (charges L)"
      "set (lexsort (charges L)) = {..<length (charges L)}"
    and B: "0 < block_number L"
  shows "\<exists>p cp. sort_leg lexsort L b = Inr (p, cp)"
proof (cases "sorted_flag L \<and> (\<not> b \<or> bunched L)")
  case True
  then show ?thesis by (simp add: sort_leg_def)
next
  case False
  define p where "p = lexsort (charges L)"
  define ch where "ch = map ((!) (charges L)) p"
  define bs where "bs = map ((!) (get_block_sizes L)) p"
  note s = test_sanity_slices [OF san]
  have lp: "length p = length (charges L)" and sp: "set p = {..<length (charges L)}"
    using lex by (simp_all add: p_def)
  have lbs: "length (get_block_sizes L) = length (charges L)"
    using s bn by (simp add: get_block_sizes_def)
  have c: "take_idx (charges L) p = Inr ch"
    unfolding ch_def by (rule take_idx_ok) (simp add: sp)
  have d: "take_idx (get_block_sizes L) p = Inr bs"
    unfolding bs_def by (rule take_idx_ok) (simp add: sp lbs)
  define cp where "cp = L\<lparr> charges := ch, block_number := length ch, slices := 0 # cumsum bs,
                  ind_len := sum_list bs \<rparr>"
  have e: "set_block_sizes (set_charges L ch) bs = Inr cp"
    by (simp add: set_block_sizes_ok set_charges_def cp_def)
  have lch: "length ch = length (charges L)" by (simp add: ch_def lp)
  have sub: "set ch \<subseteq> set (charges L)"
  proof
    fix x assume "x \<in> set ch"
    then obtain i where i: "i \<in> set p" and x: "x = charges L ! i" by (auto simp: ch_def)
    from i have "i < length (charges L)" by (simp add: sp)
    with x show "x \<in> set (charges L)" by simp
  qed
  have sc: "test_sanity cp = Inr ()"
    unfolding cp_def
    by (rule test_sanity_update [OF san sub]) (simp_all add: cumsum_def cumsum_from_length bs_def ch_def del: set_map)
  have "test_sanity (cp\<lparr> sorted_flag := True \<rparr>) = test_sanity cp"
    by (simp add: test_sanity_def)
  with sc have sc': "test_sanity (cp\<lparr> sorted_flag := True \<rparr>) = Inr ()" by simp
  have "\<exists>idx cp'. bunch (cp\<lparr> sorted_flag := True \<rparr>) = Inr (idx, cp')"
    by (rule bunch_returns [OF sc']) (use B bn lch in \<open>simp_all add: cp_def\<close>)
  then obtain idx cp' where bu: "bunch (cp\<lparr> sorted_flag := True \<rparr>) = Inr (idx, cp')" by blast
  have "sort_leg lexsort L b =
      (if b then Inr (p, cp') else Inr (p, cp\<lparr> sorted_flag := True, bunched := False \<rparr>))"
    unfolding sort_leg_def Let_def p_def [symmetric]
    using False by (simp only: c d e bu bind_r_def sum.case if_False prod.case split: if_split)
  then show ?thesis by (cases b) simp_all
qed

text \<open>
  Claim C10 as stated is about every leg. The constructor returns \<open>leg_W\<close>, whose
  slices \<open>[0, 3, 1, 4]\<close> go down: its second block is the empty slice \<open>3:1\<close>, and its
  third block overwrites the indices 1 and 2 of the first one. \<^verbatim>\<open>bunch\<close> merges the
  second and the third block into the slice \<open>3:4\<close>, and the flat charges at the
  indices 1 and 2 change from 1 to 0.
\<close>

theorem bunch_qflat_counterexample:
  "LegCharge_init parity_info [0, 3, 1, 4] [[0], [1], [1]] 1 = Inr leg_W \<and>
   \<not> sorted (slices leg_W) \<and>
   to_qflat leg_W = Inr [Some [0], Some [1], Some [1], Some [1]] \<and>
   bunch leg_W = Inr ([0, 1, 3], leg_W\<lparr> charges := [[0], [1]], block_number := 2,
                                        slices := [0, 3, 4], bunched := True \<rparr>) \<and>
   to_qflat (leg_W\<lparr> charges := [[0], [1]], block_number := 2, slices := [0, 3, 4],
                    bunched := True \<rparr>) = Inr [Some [0], Some [0], Some [0], Some [1]] \<and>
   to_qflat leg_W \<noteq>
   to_qflat (leg_W\<lparr> charges := [[0], [1]], block_number := 2, slices := [0, 3, 4],
                    bunched := True \<rparr>)"
  by code_simp

end
